theory Spec2Isabelle
  imports Main "HOL-Library.Char_ord" "HOL-Library.List_Lexorder" "HOL-Library.Sublist"
begin

section \<open>JavaScript strings\<close>

text \<open>
  The extension is TypeScript running on the editor's JavaScript engine.  A string is
  modelled as a list of code units; a \<^typ>\<open>char\<close> stands for a code unit below 256, which
  covers every character the catalog tables and the patterns of the extension mention.
  \<open>String.prototype.indexOf\<close> keeps its \<open>-1\<close> for "not found".
\<close>

definition isSpace :: "char \<Rightarrow> bool" where
  \<comment> \<open>the white space and line terminators of \<open>trim()\<close> and of \<open>\s\<close>, below 256\<close>
  "isSpace c = (c \<in> set [CHR 0x09, CHR 0x0A, CHR 0x0B, CHR 0x0C, CHR 0x0D, CHR 0x20, CHR 0xA0])"

definition isWordChar :: "char \<Rightarrow> bool" where
  \<comment> \<open>the class \<open>\w\<close>, which also decides the boundary \<open>\b\<close>\<close>
  "isWordChar c = ((CHR ''a'' \<le> c \<and> c \<le> CHR ''z'') \<or> (CHR ''A'' \<le> c \<and> c \<le> CHR ''Z'')
      \<or> (CHR ''0'' \<le> c \<and> c \<le> CHR ''9'') \<or> c = CHR ''_'')"

definition isLineTerminator :: "char \<Rightarrow> bool" where
  "isLineTerminator c = (c = CHR 0x0A \<or> c = CHR 0x0D)"

definition trimStart :: "string \<Rightarrow> string" where
  "trimStart s = dropWhile isSpace s"

definition trimEnd :: "string \<Rightarrow> string" where
  "trimEnd s = rev (dropWhile isSpace (rev s))"

definition trim :: "string \<Rightarrow> string" where
  "trim s = trimEnd (trimStart s)"

definition startsWith :: "string \<Rightarrow> string \<Rightarrow> bool" where
  "startsWith s t = prefix t s"

definition endsWith :: "string \<Rightarrow> string \<Rightarrow> bool" where
  "endsWith s t = suffix t s"

fun str_includes :: "string \<Rightarrow> string \<Rightarrow> bool" where
  "str_includes [] t = (t = [])"
| "str_includes (c # cs) t = (prefix t (c # cs) \<or> str_includes cs t)"

fun indexOf :: "string \<Rightarrow> string \<Rightarrow> int" where
  "indexOf [] t = (if t = [] then 0 else -1)"
| "indexOf (c # cs) t =
     (if prefix t (c # cs) then 0
      else (let k = indexOf cs t in if k = -1 then -1 else k + 1))"

definition substring0 :: "string \<Rightarrow> int \<Rightarrow> string" where
  \<comment> \<open>\<open>s.substring(0, k)\<close>\<close>
  "substring0 s k = take (nat k) s"

definition isUpper :: "char \<Rightarrow> bool" where
  \<comment> \<open>the capital letters below 256: A to Z, and 0xC0 to 0xDE but the sign 0xD7\<close>
  "isUpper c = ((CHR ''A'' \<le> c \<and> c \<le> CHR ''Z'') \<or>
                (CHR 0xC0 \<le> c \<and> c \<le> CHR 0xDE \<and> c \<noteq> CHR 0xD7))"

definition toLowerChar :: "char \<Rightarrow> char" where
  "toLowerChar c = (if isUpper c then char_of (of_char c + (32::nat)) else c)"

definition toLowerCase :: "string \<Rightarrow> string" where
  "toLowerCase s = map toLowerChar s"

fun split_nl :: "string \<Rightarrow> string list" where
  \<comment> \<open>\<open>text.split('\n')\<close>: never empty, one more piece than there are line feeds\<close>
  "split_nl [] = [[]]"
| "split_nl (c # cs) =
     (if c = CHR 0x0A then [] # split_nl cs
      else (case split_nl cs of l # ls \<Rightarrow> (c # l) # ls | [] \<Rightarrow> [[c]]))"

fun join_nl :: "string list \<Rightarrow> string" where
  \<comment> \<open>\<open>pieces.join('\n')\<close>\<close>
  "join_nl [] = []"
| "join_nl [l] = l"
| "join_nl (l # ls) = l @ CHR 0x0A # join_nl ls"

definition slice :: "'a list \<Rightarrow> nat \<Rightarrow> nat \<Rightarrow> 'a list" where
  \<comment> \<open>\<open>xs.slice(a, b)\<close> for indices that are not negative\<close>
  "slice xs a b = take (b - a) (drop a xs)"

section \<open>Regular expressions\<close>

text \<open>
  Every decision of the extension is taken by a regular expression, so the patterns are
  data: a \<open>regex\<close> value is the syntax tree of the pattern as written in the source, and
  \<open>matches\<close> is the backtracking matcher of the language standard.  From a position, given
  by the character before it and the rest of the input, \<open>matches\<close> lists every way the
  pattern can end, in the order in which backtracking tries them; the first element is
  the match the engine reports.  An iteration of a star that consumes nothing is dropped,
  as the standard asks.  Captures are appended in the order in which their groups close,
  which is the order of their opening parentheses in all patterns used here.
\<close>

datatype cset = One char | Range char char | Word | Space

fun in_cset :: "cset \<Rightarrow> char \<Rightarrow> bool" where
  "in_cset (One a) c = (c = a)"
| "in_cset (Range a b) c = (a \<le> c \<and> c \<le> b)"
| "in_cset Word c = isWordChar c"
| "in_cset Space c = isSpace c"

datatype regex =
    Class "cset list"
  | NClass "cset list"
  | Dot
  | Eps
  | Seq regex regex
  | Alt regex regex
  | Star regex
  | LazyStar regex
  | Group regex
  | Bol
  | Eol
  | WordB

type_synonym mstate = "char option \<times> string \<times> string list"

definition wordBefore :: "char option \<Rightarrow> bool" where
  "wordBefore p = (case p of None \<Rightarrow> False | Some c \<Rightarrow> isWordChar c)"

definition wordAfter :: "string \<Rightarrow> bool" where
  "wordAfter s = (case s of [] \<Rightarrow> False | c # _ \<Rightarrow> isWordChar c)"

function matches :: "regex \<Rightarrow> char option \<Rightarrow> string \<Rightarrow> string list \<Rightarrow> mstate list" where
  "matches (Class cs) p s caps =
     (case s of [] \<Rightarrow> []
      | c # t \<Rightarrow> if (\<exists>x\<in>set cs. in_cset x c) then [(Some c, t, caps)] else [])"
| "matches (NClass cs) p s caps =
     (case s of [] \<Rightarrow> []
      | c # t \<Rightarrow> if (\<exists>x\<in>set cs. in_cset x c) then [] else [(Some c, t, caps)])"
| "matches Dot p s caps =
     (case s of [] \<Rightarrow> []
      | c # t \<Rightarrow> if isLineTerminator c then [] else [(Some c, t, caps)])"
| "matches Eps p s caps = [(p, s, caps)]"
| "matches (Seq a b) p s caps =
     concat (map (\<lambda>(p', s', caps'). matches b p' s' caps') (matches a p s caps))"
| "matches (Alt a b) p s caps = matches a p s caps @ matches b p s caps"
| "matches (Star a) p s caps =
     concat (map (\<lambda>(p', s', caps').
                    if length s' < length s then matches (Star a) p' s' caps' else [])
                 (matches a p s caps)) @ [(p, s, caps)]"
| "matches (LazyStar a) p s caps =
     (p, s, caps) #
     concat (map (\<lambda>(p', s', caps').
                    if length s' < length s then matches (LazyStar a) p' s' caps' else [])
                 (matches a p s caps))"
| "matches (Group a) p s caps =
     map (\<lambda>(p', s', caps'). (p', s', caps' @ [take (length s - length s') s]))
         (matches a p s caps)"
| "matches Bol p s caps = (if p = None then [(p, s, caps)] else [])"
| "matches Eol p s caps = (if s = [] then [(p, s, caps)] else [])"
| "matches WordB p s caps = (if wordBefore p \<noteq> wordAfter s then [(p, s, caps)] else [])"
  by pat_completeness auto
termination
  by (relation "measures [\<lambda>(r, p, s, caps). size r, \<lambda>(r, p, s, caps). length s]") auto

declare matches.simps(7) [simp del] matches.simps(8) [simp del]

fun search :: "regex \<Rightarrow> char option \<Rightarrow> string \<Rightarrow> mstate option" where
  \<comment> \<open>the leftmost start position with a match, and the first match from there\<close>
  "search r p [] = (case matches r p [] [] of m # _ \<Rightarrow> Some m | [] \<Rightarrow> None)"
| "search r p (c # t) =
     (case matches r p (c # t) [] of m # _ \<Rightarrow> Some m | [] \<Rightarrow> search r (Some c) t)"

definition lastChar :: "char option \<Rightarrow> string \<Rightarrow> char option" where
  \<comment> \<open>the character before the position reached after reading \<open>pre\<close>\<close>
  "lastChar p pre = (if pre = [] then p else Some (last pre))"

definition test :: "regex \<Rightarrow> string \<Rightarrow> bool" where
  \<comment> \<open>\<open>pattern.test(s)\<close> for a pattern without the \<open>g\<close> flag\<close>
  "test r s = (search r None s \<noteq> None)"

definition match_groups :: "regex \<Rightarrow> string \<Rightarrow> string list option" where
  \<comment> \<open>\<open>s.match(pattern)\<close> without the \<open>g\<close> flag: the captures of the first match\<close>
  "match_groups r s = (case search r None s of None \<Rightarrow> None | Some (p, rest, caps) \<Rightarrow> Some caps)"

function exec_all :: "regex \<Rightarrow> char option \<Rightarrow> string \<Rightarrow> string list list" where
  \<comment> \<open>the loop \<open>while ((match = regex.exec(s)) !== null)\<close> over a pattern with the \<open>g\<close> flag:
      each search resumes where the last match ended.  The one pattern run this way
      never matches the empty string, so the loop always advances and the guard below is
      never the reason it stops (\<open>exec_all_functionPattern\<close>).\<close>
  "exec_all r p s =
     (case search r p s of
        None \<Rightarrow> []
      | Some (p', s', caps) \<Rightarrow>
          caps # (if length s' < length s then exec_all r p' s' else []))"
  by pat_completeness auto
termination
  by (relation "measure (\<lambda>(r, p, s). length s)") auto

declare exec_all.simps [simp del]

definition lit :: "string \<Rightarrow> regex" where
  \<comment> \<open>a run of literal characters\<close>
  "lit s = foldr (\<lambda>c r. Seq (Class [One c]) r) s Eps"

fun seqs :: "regex list \<Rightarrow> regex" where
  "seqs [] = Eps"
| "seqs [r] = r"
| "seqs (r # rs) = Seq r (seqs rs)"

fun alts :: "string list \<Rightarrow> regex" where
  \<comment> \<open>\<open>(w1|w2|...)\<close> without the parentheses\<close>
  "alts [] = Eps"
| "alts [w] = lit w"
| "alts (w # ws) = Alt (lit w) (alts ws)"

definition plus :: "regex \<Rightarrow> regex" where
  "plus r = Seq r (Star r)"

definition lazy_plus :: "regex \<Rightarrow> regex" where
  "lazy_plus r = Seq r (LazyStar r)"

definition ws_star :: regex where
  "ws_star = Star (Class [Space])"

definition ws_plus :: regex where
  "ws_plus = plus (Class [Space])"

definition chr :: "char \<Rightarrow> regex" where
  "chr c = Class [One c]"

section \<open>The catalog tables\<close>

definition FUNCTION_TO_HEADER :: "(string \<times> string) list" where
  "FUNCTION_TO_HEADER =
    [(''printf'', ''stdio.h''), (''scanf'', ''stdio.h''), (''fprintf'', ''stdio.h''),
     (''fscanf'', ''stdio.h''), (''fopen'', ''stdio.h''), (''fclose'', ''stdio.h''),
     (''fgets'', ''stdio.h''), (''fputs'', ''stdio.h''), (''fread'', ''stdio.h''),
     (''fwrite'', ''stdio.h''), (''sprintf'', ''stdio.h''), (''sscanf'', ''stdio.h''),
     (''puts'', ''stdio.h''), (''getchar'', ''stdio.h''), (''putchar'', ''stdio.h''),
     (''perror'', ''stdio.h''), (''fgetc'', ''stdio.h''), (''fputc'', ''stdio.h''),
     (''fseek'', ''stdio.h''), (''ftell'', ''stdio.h''), (''malloc'', ''stdlib.h''),
     (''calloc'', ''stdlib.h''), (''realloc'', ''stdlib.h''), (''free'', ''stdlib.h''),
     (''exit'', ''stdlib.h''), (''atoi'', ''stdlib.h''), (''atof'', ''stdlib.h''),
     (''rand'', ''stdlib.h''), (''srand'', ''stdlib.h''), (''abs'', ''stdlib.h''),
     (''system'', ''stdlib.h''), (''getenv'', ''stdlib.h''), (''strcpy'', ''string.h''),
     (''strncpy'', ''string.h''), (''strcat'', ''string.h''), (''strncat'', ''string.h''),
     (''strlen'', ''string.h''), (''strcmp'', ''string.h''), (''strncmp'', ''string.h''),
     (''strchr'', ''string.h''), (''strstr'', ''string.h''), (''memcpy'', ''string.h''),
     (''memset'', ''string.h''), (''memmove'', ''string.h''), (''memcmp'', ''string.h''),
     (''strdup'', ''string.h''), (''sqrt'', ''math.h''), (''pow'', ''math.h''),
     (''sin'', ''math.h''), (''cos'', ''math.h''), (''tan'', ''math.h''),
     (''floor'', ''math.h''), (''ceil'', ''math.h''), (''fabs'', ''math.h''),
     (''exp'', ''math.h''), (''log'', ''math.h''), (''round'', ''math.h''),
     (''fmod'', ''math.h''), (''time'', ''time.h''), (''clock'', ''time.h''),
     (''difftime'', ''time.h''), (''strftime'', ''time.h''), (''isalpha'', ''ctype.h''),
     (''isdigit'', ''ctype.h''), (''isalnum'', ''ctype.h''), (''toupper'', ''ctype.h''),
     (''tolower'', ''ctype.h''), (''isspace'', ''ctype.h''), (''ispunct'', ''ctype.h''),
     (''isupper'', ''ctype.h''), (''islower'', ''ctype.h'')]"

definition UNSAFE_FUNCTIONS :: "(string \<times> string) list" where
  \<comment> \<open>\<open>Object.entries\<close> lists the pairs in the order of the literal\<close>
  "UNSAFE_FUNCTIONS =
    [(''gets'', ''fgets''), (''strcpy'', ''strncpy''), (''strcat'', ''strncat''),
     (''sprintf'', ''snprintf'')]"

text \<open>
  Of an entry of \<open>LIBRARY_DATABASE\<close> the lookup reads the name, the header and the
  description; the prototype, the parameters, the return value, the example, the notes
  and the related functions are only shown by the panel.  The key of every entry is its
  name, and \<open>Object.values\<close> lists the entries in the order of the literal.
\<close>

record entry =
  name :: string
  header :: string
  description :: string

definition LIBRARY_DATABASE :: "entry list" where
  "LIBRARY_DATABASE =
    [\<lparr>name = ''printf'', header = ''stdio.h'',
      description = ''Prints formatted output to stdout''\<rparr>,
     \<lparr>name = ''scanf'', header = ''stdio.h'',
      description = ''Reads formatted input from stdin''\<rparr>,
     \<lparr>name = ''fprintf'', header = ''stdio.h'',
      description = ''Prints formatted output to a file stream''\<rparr>,
     \<lparr>name = ''sprintf'', header = ''stdio.h'',
      description = ''Prints formatted output to a string buffer''\<rparr>,
     \<lparr>name = ''fgets'', header = ''stdio.h'',
      description = ''Reads a line from a file stream into a buffer''\<rparr>,
     \<lparr>name = ''fputs'', header = ''stdio.h'',
      description = ''Writes a string to a file stream''\<rparr>,
     \<lparr>name = ''fread'', header = ''stdio.h'',
      description = ''Reads binary data from a file stream''\<rparr>,
     \<lparr>name = ''fwrite'', header = ''stdio.h'',
      description = ''Writes binary data to a file stream''\<rparr>,
     \<lparr>name = ''malloc'', header = ''stdlib.h'',
      description = ''Allocates memory dynamically on the heap''\<rparr>,
     \<lparr>name = ''calloc'', header = ''stdlib.h'',
      description = ''Allocates memory and initializes it to zero''\<rparr>,
     \<lparr>name = ''realloc'', header = ''stdlib.h'',
      description = ''Changes the size of previously allocated memory''\<rparr>,
     \<lparr>name = ''free'', header = ''stdlib.h'',
      description = ''Frees dynamically allocated memory''\<rparr>,
     \<lparr>name = ''strlen'', header = ''string.h'',
      description = ''Returns the length of a string (excluding null terminator)''\<rparr>,
     \<lparr>name = ''strcmp'', header = ''string.h'',
      description = ''Compares two strings lexicographically''\<rparr>,
     \<lparr>name = ''strncmp'', header = ''string.h'',
      description = ''Compares first n characters of two strings''\<rparr>,
     \<lparr>name = ''strcpy'', header = ''string.h'',
      description = ''Copies a string from source to destination''\<rparr>,
     \<lparr>name = ''strncpy'', header = ''string.h'',
      description = ''Safely copies up to n characters from source to destination''\<rparr>,
     \<lparr>name = ''strcat'', header = ''string.h'',
      description = ''Concatenates two strings''\<rparr>,
     \<lparr>name = ''strncat'', header = ''string.h'',
      description = ''Safely concatenates up to n characters''\<rparr>,
     \<lparr>name = ''strchr'', header = ''string.h'',
      description = ''Finds the first occurrence of a character in a string''\<rparr>,
     \<lparr>name = ''strstr'', header = ''string.h'',
      description = ''Finds the first occurrence of a substring in a string''\<rparr>,
     \<lparr>name = ''atoi'', header = ''stdlib.h'',
      description = ''Converts a string to an integer''\<rparr>,
     \<lparr>name = ''atof'', header = ''stdlib.h'',
      description = ''Converts a string to a floating point number''\<rparr>,
     \<lparr>name = ''fopen'', header = ''stdio.h'',
      description = ''Opens a file and returns a FILE pointer''\<rparr>,
     \<lparr>name = ''fclose'', header = ''stdio.h'',
      description = ''Closes a file stream''\<rparr>,
     \<lparr>name = ''abs'', header = ''stdlib.h'',
      description = ''Returns the absolute value of an integer''\<rparr>,
     \<lparr>name = ''sqrt'', header = ''math.h'',
      description = ''Calculates the square root''\<rparr>,
     \<lparr>name = ''pow'', header = ''math.h'',
      description = ''Calculates x raised to the power of y''\<rparr>,
     \<lparr>name = ''ceil'', header = ''math.h'',
      description = ''Rounds up to the nearest integer''\<rparr>,
     \<lparr>name = ''floor'', header = ''math.h'',
      description = ''Rounds down to the nearest integer''\<rparr>,
     \<lparr>name = ''round'', header = ''math.h'',
      description = ''Rounds to the nearest integer''\<rparr>,
     \<lparr>name = ''isdigit'', header = ''ctype.h'',
      description = ''Checks if a character is a digit (0-9)''\<rparr>,
     \<lparr>name = ''isalpha'', header = ''ctype.h'',
      description = ''Checks if a character is alphabetic (a-z, A-Z)''\<rparr>,
     \<lparr>name = ''isalnum'', header = ''ctype.h'',
      description = ''Checks if a character is alphanumeric''\<rparr>,
     \<lparr>name = ''isspace'', header = ''ctype.h'',
      description = ''Checks if a character is whitespace''\<rparr>,
     \<lparr>name = ''toupper'', header = ''ctype.h'',
      description = ''Converts a character to uppercase''\<rparr>,
     \<lparr>name = ''tolower'', header = ''ctype.h'',
      description = ''Converts a character to lowercase''\<rparr>,
     \<lparr>name = ''memcpy'', header = ''string.h'',
      description = ''Copies n bytes from source to destination''\<rparr>,
     \<lparr>name = ''memset'', header = ''string.h'',
      description = ''Sets n bytes of memory to a value''\<rparr>,
     \<lparr>name = ''time'', header = ''time.h'',
      description = ''Gets the current calendar time''\<rparr>,
     \<lparr>name = ''rand'', header = ''stdlib.h'',
      description = ''Generates a pseudo-random number''\<rparr>,
     \<lparr>name = ''srand'', header = ''stdlib.h'',
      description = ''Seeds the random number generator''\<rparr>,
     \<lparr>name = ''exit'', header = ''stdlib.h'',
      description = ''Terminates the program''\<rparr>,
     \<lparr>name = ''getchar'', header = ''stdio.h'',
      description = ''Reads a single character from stdin''\<rparr>,
     \<lparr>name = ''putchar'', header = ''stdio.h'',
      description = ''Writes a single character to stdout''\<rparr>,
     \<lparr>name = ''perror'', header = ''stdio.h'',
      description = ''Prints error message based on errno''\<rparr>]"

section \<open>Semicolon heuristic\<close>

definition re_opener :: regex where
  \<comment> \<open>\<open>/[{:\[]$/\<close>\<close>
  "re_opener = seqs [Class [One CHR ''{'', One CHR '':'', One CHR ''[''], Eol]"

definition re_closing_brace :: regex where
  \<comment> \<open>\<open>/^[}]$/\<close>\<close>
  "re_closing_brace = seqs [Bol, Class [One CHR ''}''], Eol]"

definition re_preprocessor :: regex where
  \<comment> \<open>\<open>/^#/\<close>\<close>
  "re_preprocessor = seqs [Bol, chr CHR ''#'']"

definition re_comment :: regex where
  \<comment> \<open>\<open>/^\/\/|^\/\*|\*\/$|^\*/\<close>\<close>
  "re_comment =
     Alt (seqs [Bol, lit ''//''])
       (Alt (seqs [Bol, lit ''/*''])
         (Alt (seqs [lit ''*/'', Eol]) (seqs [Bol, lit ''*''])))"

definition re_control :: regex where
  \<comment> \<open>\<open>/^\s*(if|else if|else|while|for|do|switch)\s*\(.*\)\s*$/\<close>\<close>
  "re_control =
     seqs [Bol, ws_star,
           Group (alts [''if'', ''else if'', ''else'', ''while'', ''for'', ''do'', ''switch'']),
           ws_star, chr CHR ''('', Star Dot, chr CHR '')'', ws_star, Eol]"

definition re_function_header :: regex where
  \<comment> \<open>\<open>/^\s*(int|void|char|float|double|long|short|unsigned|signed|static|const|auto|register)\s+[\w\s\*]+\([^)]*\)\s*$/\<close>\<close>
  "re_function_header =
     seqs [Bol, ws_star,
           Group (alts [''int'', ''void'', ''char'', ''float'', ''double'', ''long'', ''short'',
                        ''unsigned'', ''signed'', ''static'', ''const'', ''auto'', ''register'']),
           ws_plus, plus (Class [Word, Space, One CHR ''*'']),
           chr CHR ''('', Star (NClass [One CHR '')'']), chr CHR '')'', ws_star, Eol]"

definition re_type_opener :: regex where
  \<comment> \<open>\<open>/^\s*(struct|union|enum|typedef)\b/\<close>\<close>
  "re_type_opener =
     seqs [Bol, ws_star, Group (alts [''struct'', ''union'', ''enum'', ''typedef'']), WordB]"

definition re_label :: regex where
  \<comment> \<open>\<open>/^\s*(case\s+.+|default)\s*:\s*$/\<close>\<close>
  "re_label =
     seqs [Bol, ws_star,
           Group (Alt (seqs [lit ''case'', ws_plus, plus Dot]) (lit ''default'')),
           ws_star, chr CHR '':'', ws_star, Eol]"

definition shouldAddSemicolon :: "string \<Rightarrow> bool" where
  \<comment> \<open>no step of the body throws, so the \<open>catch\<close> branch is never taken\<close>
  "shouldAddSemicolon text =
     (let trimmed = trim text in
      if trimmed = [] \<or> endsWith trimmed '';'' then False
      else if test re_opener trimmed then False
      else if test re_closing_brace trimmed then False
      else if test re_preprocessor trimmed then False
      else if test re_comment trimmed then False
      else if test re_control trimmed then False
      else if test re_function_header trimmed then False
      else if test re_type_opener trimmed then False
      else if test re_label trimmed then False
      else True)"

section \<open>Diagnostic scanner\<close>

datatype severity = Warning | Information

record diagnostic =
  startLine :: int
  startCol :: int
  endLine :: int
  endCol :: int
  message :: string
  severity :: severity

definition stripLineComment :: "string \<Rightarrow> string" where
  \<comment> \<open>\<open>commentIndex !== -1 ? line.substring(0, commentIndex) : line\<close>\<close>
  "stripLineComment line =
     (let commentIndex = indexOf line ''//'' in
      if commentIndex \<noteq> -1 then substring0 line commentIndex else line)"

definition unsafeMessage :: "string \<Rightarrow> string \<Rightarrow> string" where
  "unsafeMessage unsafeFunc safeFunc =
     ''Unsafe function '' @ [CHR 0x27] @ unsafeFunc @ [CHR 0x27] @ ''. Consider using '' @
     [CHR 0x27] @ safeFunc @ [CHR 0x27] @ '' instead.''"

definition unsafeStep ::
  "string \<Rightarrow> nat \<Rightarrow> diagnostic list \<Rightarrow> string \<times> string \<Rightarrow> diagnostic list" where
  \<comment> \<open>one round of the loop over the table; the diagnostic pushed is appended\<close>
  "unsafeStep line lineNumber =
     (\<lambda>diagnostics (unsafeFunc, safeFunc).
        if str_includes line (unsafeFunc @ ''('') then
          (let commentIndex = indexOf line ''//'';
               funcIndex = indexOf line unsafeFunc
           in if commentIndex \<noteq> -1 \<and> funcIndex > commentIndex then diagnostics
              else diagnostics @
                   [\<lparr>startLine = int lineNumber, startCol = funcIndex,
                     endLine = int lineNumber,
                     endCol = funcIndex + int (length unsafeFunc),
                     message = unsafeMessage unsafeFunc safeFunc,
                     severity = Warning\<rparr>])
        else diagnostics)"

definition checkUnsafeFunctions :: "string \<Rightarrow> nat \<Rightarrow> diagnostic list \<Rightarrow> diagnostic list" where
  "checkUnsafeFunctions line lineNumber diagnostics =
     (let trimmed = trim line in
      if startsWith trimmed ''//'' \<or> startsWith trimmed ''/*'' \<or> startsWith trimmed ''*''
      then diagnostics
      else foldl (unsafeStep line lineNumber) diagnostics UNSAFE_FUNCTIONS)"

definition re_NULL :: regex where
  \<comment> \<open>\<open>/\bNULL\b/\<close>\<close>
  "re_NULL = seqs [WordB, lit ''NULL'', WordB]"

definition re_NULL_compared :: regex where
  \<comment> \<open>\<open>/\b!=\s*NULL|==\s*NULL\b/\<close>\<close>
  "re_NULL_compared =
     Alt (seqs [WordB, lit ''!='', ws_star, lit ''NULL''])
         (seqs [lit ''=='', ws_star, lit ''NULL'', WordB])"

definition re_if :: regex where
  \<comment> \<open>\<open>/\bif\s*\(/\<close>\<close>
  "re_if = seqs [WordB, lit ''if'', ws_star, chr CHR ''('']"

definition re_perror :: regex where
  \<comment> \<open>\<open>/perror/\<close>\<close>
  "re_perror = lit ''perror''"

definition fopenMessage :: string where
  "fopenMessage = ''Consider checking if fopen() returned NULL before using the file pointer''"

definition checkFopenWithoutNullCheck ::
  "string list \<Rightarrow> string \<Rightarrow> nat \<Rightarrow> diagnostic list \<Rightarrow> diagnostic list" where
  "checkFopenWithoutNullCheck lines line lineNumber diagnostics =
     (let checkLine = stripLineComment line in
      if str_includes checkLine ''fopen('' then
        (let nextLines = join_nl (slice lines (lineNumber + 1) (min (lineNumber + 5) (length lines)));
             hasNullCheck = (test re_NULL nextLines \<or> test re_NULL_compared nextLines);
             hasErrorHandling = (test re_if nextLines \<or> test re_perror nextLines)
         in if \<not> hasNullCheck \<and> \<not> hasErrorHandling then
              diagnostics @ [\<lparr>startLine = int lineNumber, startCol = indexOf checkLine ''fopen'',
                               endLine = int lineNumber, endCol = int (length checkLine),
                               message = fopenMessage, severity = Information\<rparr>]
            else diagnostics)
      else diagnostics)"

section \<open>Reference lookup\<close>

text \<open>
  A message from a view is an object with a command and a query.  The query can be any
  value a view can post: \<open>Text q\<close> is the string \<open>q\<close>, and \<open>Other b t\<close> is a value that is
  not a string, where \<open>b\<close> tells whether it counts as true in a condition and \<open>t\<close> is the
  text \<open>String\<close> makes of it (\<open>undefined\<close> is \<open>Other False ''undefined''\<close>, the number 42 is
  \<open>Other True ''42''\<close>).  The view a handler answers to is taken to exist.  A handler
  returns the result list it posts to the view, or \<open>None\<close> when it posts nothing.
\<close>

datatype jsquery = Text string | Other bool string

fun toBoolean :: "jsquery \<Rightarrow> bool" where
  \<comment> \<open>the value in a condition: of the strings, only the empty one counts as false\<close>
  "toBoolean (Text q) = (q \<noteq> [])"
| "toBoolean (Other b t) = b"

fun toStr :: "jsquery \<Rightarrow> string" where
  \<comment> \<open>\<open>String(value)\<close>\<close>
  "toStr (Text q) = q"
| "toStr (Other b t) = t"

record message =
  command :: string
  query :: jsquery

definition handleWebviewMessage :: "message \<Rightarrow> entry list option" where
  \<comment> \<open>\<open>LibraryReferenceViewProvider._handleWebviewMessage\<close>, the handler of the side bar
      view; it asks for \<open>typeof query === 'string'\<close>\<close>
  "handleWebviewMessage msg =
     (case query msg of
        Other b t \<Rightarrow> None
      | Text q \<Rightarrow>
          if command msg = ''search'' then
            (let searchTerm = trim (toLowerCase q) in
             Some (filter (\<lambda>func.
                if name func \<noteq> [] \<and> str_includes (toLowerCase (name func)) searchTerm then True
                else if header func \<noteq> [] then
                  (let headerTerm = (if endsWith searchTerm ''.h'' then searchTerm
                                     else searchTerm @ ''.h'')
                   in if str_includes (toLowerCase (header func)) headerTerm \<or>
                         str_includes (toLowerCase (header func)) searchTerm
                      then True else False)
                else False) LIBRARY_DATABASE))
          else None)"

definition handleSearchMessage :: "message \<Rightarrow> entry list option" where
  \<comment> \<open>the handler of the reference panel; it asks for \<open>message.query\<close> to count as true
      and searches for \<open>String(message.query)\<close>\<close>
  "handleSearchMessage msg =
     (if command msg = ''search'' \<and> toBoolean (query msg) then
        (let q = trim (toLowerCase (toStr (query msg))) in
         if q = [] then None
         else Some (filter (\<lambda>func.
                str_includes (toLowerCase (name func)) q \<or>
                str_includes (toLowerCase (description func)) q \<or>
                str_includes (toLowerCase (header func)) q) LIBRARY_DATABASE))
      else None)"

text \<open>
  The two views run a script of their own.  The results area of a view shows a notice or
  the cards of a result list.  \<open>performSearch\<close> runs on a click on the search button and on
  the enter key, with the value of the search field: it either writes the results area
  itself or posts a message to the extension.  \<open>displayResults\<close> runs on the
  \<open>searchResults\<close> message by which a handler answers; an entry without a name gets no
  card.
\<close>

datatype display = Notice string | Cards "entry list"

definition sidebar_performSearch :: "string \<Rightarrow> display + message" where
  \<comment> \<open>the side bar's script: \<open>Inl\<close> is the new content of the results area, \<open>Inr\<close> the
      message posted\<close>
  "sidebar_performSearch inputValue =
     (let query = trim inputValue in
      if length query = 0 then Inl (Notice ''Enter a function name...'')
      else Inr \<lparr>command = ''search'', query = Text query\<rparr>)"

definition sidebar_displayResults :: "entry list \<Rightarrow> display" where
  "sidebar_displayResults results =
     (if length results = 0 then Notice ''No functions found.''
      else Cards (filter (\<lambda>func. name func \<noteq> []) results))"

definition sidebar_search :: "string \<Rightarrow> display option" where
  \<comment> \<open>a search from the side bar, from the click to the results area; \<open>None\<close> when the
      area is left as it was\<close>
  "sidebar_search inputValue =
     (case sidebar_performSearch inputValue of
        Inl shown \<Rightarrow> Some shown
      | Inr msg \<Rightarrow> map_option sidebar_displayResults (handleWebviewMessage msg))"

definition panel_performSearch :: "string \<Rightarrow> display + message" where
  \<comment> \<open>the script of the reference panel\<close>
  "panel_performSearch inputValue =
     (let query = trim inputValue in
      if length query = 0 then Inl (Notice ''Enter a search term...'')
      else Inr \<lparr>command = ''search'', query = Text query\<rparr>)"

definition panel_displayResults :: "entry list \<Rightarrow> display" where
  "panel_displayResults results =
     (if length results = 0 then Notice ''No functions found. Try a different search term.''
      else Cards (filter (\<lambda>func. name func \<noteq> []) results))"

definition panel_search :: "string \<Rightarrow> display option" where
  "panel_search inputValue =
     (case panel_performSearch inputValue of
        Inl shown \<Rightarrow> Some shown
      | Inr msg \<Rightarrow> map_option panel_displayResults (handleSearchMessage msg))"

text \<open>
  A third way to search is the command \<open>c-helper.searchReference\<close>, which asks for the
  query in an input box; \<open>None\<close> is a box that was dismissed.  The panel is taken to open.
  \<open>searchReference\<close> either posts a result list to the panel (\<open>Inl\<close>) or shows an
  information message (\<open>Inr\<close>); the command does nothing (\<open>None\<close>) without a query.
\<close>

definition searchReference :: "string \<Rightarrow> entry list + string" where
  "searchReference q =
     (let results = filter (\<lambda>func. str_includes (toLowerCase (name func)) (toLowerCase q))
                           LIBRARY_DATABASE
      in if length results > 0 then Inl results
         else Inr (''No functions found matching '' @ [CHR 0x22] @ q @ [CHR 0x22]))"

definition searchReferenceCommand :: "string option \<Rightarrow> (entry list + string) option" where
  "searchReferenceCommand input =
     (case input of
        None \<Rightarrow> None
      | Some q \<Rightarrow> if q \<noteq> [] then Some (searchReference q) else None)"

section \<open>The host editor\<close>

text \<open>
  A document has an end of line, the line feed or a carriage return followed by a line
  feed, and the editor keeps every line break of its text in that form; \<open>getText()\<close> is
  that text, so \<open>split('\n')\<close> leaves a carriage return at the end of every line but the
  last of a document of the second kind.  An edit is one insertion: a position (line and
  column, from 0) and the text to put there.  The editor validates the position against
  the document before it inserts: a line past the last one becomes the end of the last
  line, a column past the end of its line becomes the end of that line.  It rewrites every
  line break of the inserted text (carriage return and line feed, carriage return alone,
  line feed alone) to the end of line of the document.
\<close>

datatype eol = LF | CRLF

fun eolText :: "eol \<Rightarrow> string" where
  "eolText LF = [CHR 0x0A]"
| "eolText CRLF = [CHR 0x0D, CHR 0x0A]"

fun normalizeEol :: "eol \<Rightarrow> string \<Rightarrow> string" where
  \<comment> \<open>\<open>text.replace(/\r\n|\r|\n/g, eol)\<close>\<close>
  "normalizeEol e [] = []"
| "normalizeEol e (c # cs) =
     (if c = CHR 0x0D then
        eolText e @ normalizeEol e (if cs \<noteq> [] \<and> hd cs = CHR 0x0A then tl cs else cs)
      else if c = CHR 0x0A then eolText e @ normalizeEol e cs
      else c # normalizeEol e cs)"

record edit =
  atLine :: nat
  atCol :: nat
  insertText :: string

fun lineLength :: "eol \<Rightarrow> string \<Rightarrow> nat" where
  \<comment> \<open>the length of a line for the editor, of a line as \<open>split('\n')\<close> gives it: the
      carriage return at its end belongs to the end of line\<close>
  "lineLength LF l = length l"
| "lineLength CRLF l = (if l \<noteq> [] \<and> last l = CHR 0x0D then length l - 1 else length l)"

fun glue :: "string \<Rightarrow> string list \<Rightarrow> string \<Rightarrow> string list" where
  \<comment> \<open>the pieces of the inserted text, between the two halves of the line they land in\<close>
  "glue pre [] post = [pre @ post]"
| "glue pre [x] post = [pre @ x @ post]"
| "glue pre (x # xs) post = (pre @ x) # butlast xs @ [last xs @ post]"

definition insert_lines :: "eol \<Rightarrow> string list \<Rightarrow> edit \<Rightarrow> string list" where
  "insert_lines e ls ed =
     (let l = min (atLine ed) (length ls - 1);
          c = (if atLine ed < length ls then min (atCol ed) (lineLength e (ls ! l))
               else lineLength e (ls ! l))
      in take l ls @
         glue (take c (ls ! l)) (split_nl (normalizeEol e (insertText ed))) (drop c (ls ! l))
           @ drop (Suc l) ls)"

definition applyEdit :: "eol \<Rightarrow> string \<Rightarrow> edit \<Rightarrow> string" where
  \<comment> \<open>the text of a document with end of line \<open>e\<close> after the edit\<close>
  "applyEdit e documentText ed = join_nl (insert_lines e (split_nl documentText) ed)"

section \<open>Header inference\<close>

text \<open>
  \<open>FUNCTION_TO_HEADER\<close> is an object literal, so \<open>FUNCTION_TO_HEADER[functionName]\<close>
  also finds what the literal inherits from \<open>Object.prototype\<close>.  Such a value is not a
  string: it is truthy, a set of strings never has it, and where the code builds text
  from it, it is turned into the text recorded here.
\<close>

datatype jsval = Str string | Inherited string

definition OBJECT_PROTOTYPE :: "(string \<times> string) list" where
  "OBJECT_PROTOTYPE =
    [(''constructor'', ''function Object() { [native code] }''),
     (''__defineGetter__'', ''function __defineGetter__() { [native code] }''),
     (''__defineSetter__'', ''function __defineSetter__() { [native code] }''),
     (''hasOwnProperty'', ''function hasOwnProperty() { [native code] }''),
     (''__lookupGetter__'', ''function __lookupGetter__() { [native code] }''),
     (''__lookupSetter__'', ''function __lookupSetter__() { [native code] }''),
     (''isPrototypeOf'', ''function isPrototypeOf() { [native code] }''),
     (''propertyIsEnumerable'', ''function propertyIsEnumerable() { [native code] }''),
     (''toString'', ''function toString() { [native code] }''),
     (''valueOf'', ''function valueOf() { [native code] }''),
     (''__proto__'', ''[object Object]''),
     (''toLocaleString'', ''function toLocaleString() { [native code] }'')]"

definition headerOf :: "string \<Rightarrow> jsval option" where
  \<comment> \<open>\<open>FUNCTION_TO_HEADER[functionName]\<close>; \<open>None\<close> is \<open>undefined\<close>\<close>
  "headerOf functionName =
     (case map_of FUNCTION_TO_HEADER functionName of
        Some h \<Rightarrow> Some (Str h)
      | None \<Rightarrow> map_option Inherited (map_of OBJECT_PROTOTYPE functionName))"

fun toText :: "jsval \<Rightarrow> string" where
  "toText (Str h) = h"
| "toText (Inherited t) = t"

fun truthy :: "jsval \<Rightarrow> bool" where
  "truthy (Str h) = (h \<noteq> [])"
| "truthy (Inherited t) = True"

fun hasHeader :: "string list \<Rightarrow> jsval \<Rightarrow> bool" where
  \<comment> \<open>\<open>includedHeaders.has(header)\<close> on a set of strings\<close>
  "hasHeader included (Str h) = (h \<in> set included)"
| "hasHeader included (Inherited t) = False"

definition set_add :: "'a list \<Rightarrow> 'a \<Rightarrow> 'a list" where
  \<comment> \<open>\<open>Set.prototype.add\<close>: a set keeps its members in the order they came\<close>
  "set_add xs x = (if x \<in> set xs then xs else xs @ [x])"

definition re_include :: regex where
  \<comment> \<open>\<open>/#include\s*[<"](.+?)[>"]/\<close>\<close>
  "re_include =
     seqs [lit ''#include'', ws_star, Class [One CHR ''<'', One CHR 0x22],
           Group (lazy_plus Dot), Class [One CHR ''>'', One CHR 0x22]]"

definition functionPattern :: regex where
  \<comment> \<open>\<open>/\b([a-zA-Z_]\w*)\s*\(/g\<close>\<close>
  "functionPattern =
     seqs [WordB,
           Group (Seq (Class [Range CHR ''a'' CHR ''z'', Range CHR ''A'' CHR ''Z'', One CHR ''_''])
                      (Star (Class [Word]))),
           ws_star, chr CHR ''('']"

definition includedHeaders :: "string list \<Rightarrow> string list" where
  "includedHeaders lines =
     foldl (\<lambda>included line.
              case match_groups re_include line of
                Some (h # _) \<Rightarrow> set_add included h
              | _ \<Rightarrow> included) [] lines"

definition calledNames :: "string \<Rightarrow> string list" where
  \<comment> \<open>\<open>match[1]\<close> of every match of \<open>functionPattern\<close> in the line without its comment\<close>
  "calledNames line = map hd (exec_all functionPattern None (stripLineComment line))"

definition requireHeader :: "string list \<Rightarrow> jsval list \<Rightarrow> string \<Rightarrow> jsval list" where
  \<comment> \<open>the body of the loop over the calls of a line\<close>
  "requireHeader included required functionName =
     (case headerOf functionName of
        Some hdr \<Rightarrow>
          if truthy hdr \<and> \<not> hasHeader included hdr then set_add required hdr else required
      | None \<Rightarrow> required)"

definition requiredHeaders :: "string list \<Rightarrow> jsval list" where
  "requiredHeaders lines =
     (let included = includedHeaders lines in
      foldl (\<lambda>required line. foldl (requireHeader included) required (calledNames line))
            [] lines)"

definition isIncludeLine :: "string \<Rightarrow> bool" where
  \<comment> \<open>\<open>line.trim().startsWith('#include')\<close>\<close>
  "isIncludeLine line = startsWith (trim line) ''#include''"

definition insertionLine :: "string list \<Rightarrow> nat" where
  "insertionLine lines =
     foldl (\<lambda>ins i. if isIncludeLine (lines ! i) then i + 1 else ins) 0 [0..<length lines]"

definition headerLine :: "jsval \<Rightarrow> string" where
  "headerLine h = ''#include <'' @ toText h @ ''>''"

definition autoAddRequiredHeaders :: "bool \<Rightarrow> string \<Rightarrow> edit option" where
  \<comment> \<open>\<open>editorOnDocument\<close>: there is an active editor and it shows this document.
      The result is the edit handed to the editor, \<open>None\<close> when the function returns
      without one.\<close>
  "autoAddRequiredHeaders editorOnDocument documentText =
     (if \<not> editorOnDocument then None
      else
        (let lines = split_nl documentText;
             required = requiredHeaders lines
         in if required = [] then None
            else
              (let headersToAdd = sort_key toText required;
                   headerText = join_nl (map headerLine headersToAdd) @ [CHR 0x0A]
               in Some \<lparr>atLine = insertionLine lines, atCol = 0, insertText = headerText\<rparr>)))"

section \<open>Prototype synthesis\<close>

definition re_main :: regex where
  \<comment> \<open>\<open>/^\s*(int|void)\s+main\s*\(/\<close>\<close>
  "re_main =
     seqs [Bol, ws_star, Group (alts [''int'', ''void'']), ws_plus, lit ''main'', ws_star,
           chr CHR ''('']"

definition re_function_definition :: regex where
  \<comment> \<open>\<open>/^\s*(int|void|char|float|double|long|short|unsigned|signed)\s+([a-zA-Z_]\w*)\s*\(([^)]*)\)\s*\{/\<close>\<close>
  "re_function_definition =
     seqs [Bol, ws_star,
           Group (alts [''int'', ''void'', ''char'', ''float'', ''double'', ''long'', ''short'',
                        ''unsigned'', ''signed'']),
           ws_plus,
           Group (Seq (Class [Range CHR ''a'' CHR ''z'', Range CHR ''A'' CHR ''Z'', One CHR ''_''])
                      (Star (Class [Word]))),
           ws_star, chr CHR ''('', Group (Star (NClass [One CHR '')''])), chr CHR '')'',
           ws_star, chr CHR ''{'']"

definition re_prototype_of :: "string \<Rightarrow> regex" where
  \<comment> \<open>\<open>new RegExp(`\\b${func.name}\\s*\\([^)]*\\)\\s*;`)\<close>; a name is made of word
      characters, so it stands for itself in the pattern\<close>
  "re_prototype_of fname =
     seqs [WordB, lit fname, ws_star, chr CHR ''('', Star (NClass [One CHR '')'']),
           chr CHR '')'', ws_star, chr CHR '';'']"

definition lastIncludeLine :: "string list \<Rightarrow> nat option" where
  \<comment> \<open>\<open>None\<close> is the \<open>-1\<close> of the source\<close>
  "lastIncludeLine lines =
     foldl (\<lambda>found i. if isIncludeLine (lines ! i) then Some i else found) None
           [0..<length lines]"

definition mainLine :: "string list \<Rightarrow> nat \<Rightarrow> nat option" where
  \<comment> \<open>the first line from \<open>start\<close> on that opens \<open>main\<close>; \<open>None\<close> is \<open>-1\<close>\<close>
  "mainLine lines start = List.find (\<lambda>i. test re_main (lines ! i)) [start..<length lines]"

definition prototypeOf :: "string \<Rightarrow> string \<Rightarrow> string \<Rightarrow> string" where
  \<comment> \<open>\<open>`${returnType} ${functionName}(${parameters});`\<close>\<close>
  "prototypeOf returnType functionName parameters =
     returnType @ '' '' @ functionName @ ''('' @ parameters @ '');''"

definition functionAt :: "string \<Rightarrow> (string \<times> string) list" where
  \<comment> \<open>what one round of the loop pushes for a line: name and prototype of the function
      the line defines, unless it is \<open>main\<close>\<close>
  "functionAt line =
     (case match_groups re_function_definition line of
        Some [returnType, functionName, params] \<Rightarrow>
          if functionName \<noteq> ''main''
          then [(functionName, prototypeOf returnType functionName (trim params))]
          else []
      | _ \<Rightarrow> [])"

definition foundFunctions :: "string list \<Rightarrow> nat \<Rightarrow> (string \<times> string) list" where
  \<comment> \<open>name and prototype of every function defined from line \<open>start\<close> on\<close>
  "foundFunctions lines start = concat (map (\<lambda>i. functionAt (lines ! i)) [start..<length lines])"

definition missingPrototypes :: "string list \<Rightarrow> nat \<Rightarrow> nat \<Rightarrow> (string \<times> string) list" where
  "missingPrototypes lines lastInclude main =
     (let prototypeArea = join_nl (slice lines (lastInclude + 1) main)
      in filter (\<lambda>func. \<not> test (re_prototype_of (fst func)) prototypeArea)
                (foundFunctions lines (main + 1)))"

definition autoGeneratePrototypes :: "bool \<Rightarrow> bool \<Rightarrow> string \<Rightarrow> edit option" where
  \<comment> \<open>\<open>isProcessingChange\<close> is the flag of the module as the call finds it\<close>
  "autoGeneratePrototypes isProcessingChange editorOnDocument documentText =
     (if isProcessingChange then None
      else if \<not> editorOnDocument then None
      else
        (let lines = split_nl documentText in
         case lastIncludeLine lines of
           None \<Rightarrow> None
         | Some lastInclude \<Rightarrow>
             (case mainLine lines (lastInclude + 1) of
                None \<Rightarrow> None
              | Some main \<Rightarrow>
                  if foundFunctions lines (main + 1) = [] then None
                  else
                    (let missing = missingPrototypes lines lastInclude main in
                     if missing \<noteq> [] then
                       Some \<lparr>atLine = lastInclude + 1, atCol = 0,
                             insertText = CHR 0x0A # join_nl (map snd missing) @ [CHR 0x0A]\<rparr>
                     else None))))"

section \<open>Notions of the statements\<close>

text \<open>
  The three entries of the catalog whose name contains \<open>printf\<close>.
\<close>

definition entry_printf :: entry where
  "entry_printf = \<lparr>name = ''printf'', header = ''stdio.h'',
                     description = ''Prints formatted output to stdout''\<rparr>"

definition entry_fprintf :: entry where
  "entry_fprintf = \<lparr>name = ''fprintf'', header = ''stdio.h'',
                      description = ''Prints formatted output to a file stream''\<rparr>"

definition entry_sprintf :: entry where
  "entry_sprintf = \<lparr>name = ''sprintf'', header = ''stdio.h'',
                      description = ''Prints formatted output to a string buffer''\<rparr>"

text \<open>
  A list of captures grows at its end, by pieces made of characters of the input.
\<close>

definition extends :: "string \<Rightarrow> string list \<Rightarrow> string list \<Rightarrow> bool" where
  "extends s caps caps' = (\<exists>new. caps' = caps @ new \<and> (\<forall>c\<in>set new. set c \<subseteq> set s))"

definition occurs :: "string \<Rightarrow> string \<Rightarrow> (char option \<Rightarrow> string \<Rightarrow> bool) \<Rightarrow> bool" where
  \<comment> \<open>\<open>w\<close> occurs in \<open>s\<close> at a place where the character before it and the text after
      it satisfy \<open>Q\<close>\<close>
  "occurs s w Q = (\<exists>pre post. s = pre @ w @ post \<and> Q (lastChar None pre) post)"

text \<open>
  A pattern that reads at least one character whenever it matches.
\<close>

fun consuming :: "regex \<Rightarrow> bool" where
  "consuming (Class cs) = True"
| "consuming (NClass cs) = True"
| "consuming Dot = True"
| "consuming (Seq a b) = (consuming a \<or> consuming b)"
| "consuming (Alt a b) = (consuming a \<and> consuming b)"
| "consuming (Group a) = consuming a"
| "consuming r = False"

text \<open>
  Every match of the pattern ends with the character \<open>c\<close>.
\<close>

definition endsIn :: "regex \<Rightarrow> char \<Rightarrow> bool" where
  "endsIn r c = (\<forall>p s caps p' s' caps'.
      (p', s', caps') \<in> set (matches r p s caps) \<longrightarrow> (\<exists>v. s = v @ c # s'))"

text \<open>
  What \<open>split('\n')\<close> leaves of an end of line at the end of a line, and the texts a
  document with a given end of line can have: in the one kind no carriage return at all,
  in the other a carriage return before every line feed and nowhere else.
\<close>

definition lineEnd :: "eol \<Rightarrow> string" where
  "lineEnd e = butlast (eolText e)"

fun isDocument :: "eol \<Rightarrow> string \<Rightarrow> bool" where
  "isDocument LF t = (CHR 0x0D \<notin> set t)"
| "isDocument CRLF t =
     ((\<forall>l\<in>set (butlast (split_nl t)). l \<noteq> [] \<and> last l = CHR 0x0D \<and> CHR 0x0D \<notin> set (butlast l)) \<and>
      CHR 0x0D \<notin> set (last (split_nl t)))"

text \<open>
  What a line defines, read off the line alone: the return type, the name and the
  parameter text of the function whose definition the line opens; whether that function
  is one to declare, given the text of the prototype area; and its prototype.
\<close>

definition definedAt :: "string \<Rightarrow> (string \<times> string \<times> string) option" where
  "definedAt line =
     (case match_groups re_function_definition line of
        Some [returnType, functionName, params] \<Rightarrow> Some (returnType, functionName, params)
      | _ \<Rightarrow> None)"

definition missingAt :: "string \<Rightarrow> string \<Rightarrow> bool" where
  "missingAt area line =
     (case definedAt line of
        Some (returnType, functionName, params) \<Rightarrow>
          functionName \<noteq> ''main'' \<and> \<not> test (re_prototype_of functionName) area
      | None \<Rightarrow> False)"

definition prototypeAt :: "string \<Rightarrow> string" where
  "prototypeAt line =
     (case definedAt line of
        Some (returnType, functionName, params) \<Rightarrow>
          returnType @ '' '' @ functionName @ ''('' @ trim params @ '');''
      | None \<Rightarrow> [])"

section \<open>Evaluation\<close>

text \<open>
  Lower-casing read off the bits of a character: a capital letter has bit 6 set and
  bit 5 clear, and adding 32 sets bit 5.
\<close>

lemma toLowerChar_code [code]:
  "toLowerChar (Char b0 b1 b2 b3 b4 b5 b6 b7) =
     (if b6 \<and> \<not> b5 \<and>
         (if b7 then \<not> (b4 \<and> b2 \<and> b1 \<and> b0)
          else (b0 \<or> b1 \<or> b2 \<or> b3 \<or> b4) \<and> \<not> (b4 \<and> b3 \<and> (b2 \<or> (b1 \<and> b0))))
      then Char b0 b1 b2 b3 b4 True b6 b7 else Char b0 b1 b2 b3 b4 b5 b6 b7)"
  by (cases b0; cases b1; cases b2; cases b3; cases b4; cases b5; cases b6; cases b7;
      simp add: toLowerChar_def isUpper_def less_eq_char_def char_of_def bit_Suc_0_iff)

section \<open>Reference lookup: the query \<open>printf\<close>\<close>

lemma printf_sidebar:
  "handleWebviewMessage \<lparr>command = ''search'', query = Text ''printf''\<rparr> =
     Some [entry_printf, entry_fprintf, entry_sprintf]"
  by code_simp

lemma printf_panel:
  "handleSearchMessage \<lparr>command = ''search'', query = Text ''printf''\<rparr> =
     Some [entry_printf, entry_fprintf, entry_sprintf]"
  by code_simp

text \<open>
  C2, as the code has it.  The lookup matches by substring, so the query \<open>printf\<close>
  finds every entry whose name contains it: both handlers post the three entries
  \<open>printf\<close>, \<open>fprintf\<close> and \<open>sprintf\<close>, in the order of the catalog, and nothing else.
\<close>

theorem search_printf_results:
  "handleWebviewMessage \<lparr>command = ''search'', query = Text ''printf''\<rparr> =
     Some [entry_printf, entry_fprintf, entry_sprintf] \<and>
   handleSearchMessage \<lparr>command = ''search'', query = Text ''printf''\<rparr> =
     Some [entry_printf, entry_fprintf, entry_sprintf] \<and>
   entry_printf \<in> set LIBRARY_DATABASE \<and> entry_fprintf \<in> set LIBRARY_DATABASE \<and>
   entry_sprintf \<in> set LIBRARY_DATABASE"
proof -
  have "entry_printf \<in> set LIBRARY_DATABASE" "entry_fprintf \<in> set LIBRARY_DATABASE"
    "entry_sprintf \<in> set LIBRARY_DATABASE"
    by (simp_all add: LIBRARY_DATABASE_def entry_printf_def entry_fprintf_def entry_sprintf_def)
  then show ?thesis using printf_sidebar printf_panel by simp
qed

text \<open>
  C2 as stated fails: the result for \<open>printf\<close> is not the single entry \<open>printf\<close>.
\<close>

theorem search_printf_not_single:
  "handleWebviewMessage \<lparr>command = ''search'', query = Text ''printf''\<rparr> \<noteq> Some [entry_printf]"
  using printf_sidebar by simp

section \<open>Reference lookup: the empty query\<close>

lemma toLowerChar_space: "isSpace c \<Longrightarrow> toLowerChar c = c"
  by (auto simp: isSpace_def toLowerChar_def isUpper_def less_eq_char_def)

lemma trim_blank:
  assumes "\<forall>c\<in>set s. isSpace c"
  shows "trim s = []"
proof -
  have d: "dropWhile isSpace s = []" using assms by simp
  show ?thesis unfolding trim_def trimStart_def trimEnd_def d by simp
qed

lemma toLowerCase_blank: "\<forall>c\<in>set s. isSpace c \<Longrightarrow> toLowerCase s = s"
  by (simp add: toLowerCase_def toLowerChar_space map_idI)

text \<open>
  C7.  A query that is empty or all white space never leaves the view.  The script of
  either view trims the value of the search field, and when nothing is left it writes its
  prompt into the results area and posts no message: no handler runs, and no result list,
  let alone the whole catalog, comes back.
\<close>

theorem blank_query_yields_prompt:
  assumes "\<forall>c\<in>set q. isSpace c"
  shows "sidebar_performSearch q = Inl (Notice ''Enter a function name...'') \<and>
         sidebar_search q = Some (Notice ''Enter a function name...'') \<and>
         panel_performSearch q = Inl (Notice ''Enter a search term...'') \<and>
         panel_search q = Some (Notice ''Enter a search term...'')"
  using assms
  by (simp add: sidebar_performSearch_def sidebar_search_def panel_performSearch_def
        panel_search_def trim_blank)

text \<open>The theorem at the empty query and at a query of a blank and a tab.\<close>

theorem blank_query_yields_prompt_witness:
  "sidebar_search [] = Some (Notice ''Enter a function name...'') \<and>
   panel_search [] = Some (Notice ''Enter a search term...'') \<and>
   sidebar_search [CHR 0x20, CHR 0x09] = Some (Notice ''Enter a function name...'') \<and>
   panel_search [CHR 0x20, CHR 0x09] = Some (Notice ''Enter a search term...'')"
proof -
  have "\<forall>c\<in>set [CHR 0x20, CHR 0x09]. isSpace c" by (simp add: isSpace_def)
  from blank_query_yields_prompt[OF this] blank_query_yields_prompt[of "[]"]
  show ?thesis by simp
qed

text \<open>
  The guard is in the scripts.  Of the two handlers, the panel's has one of its own and
  posts nothing for such a query; the side bar's has none and would answer an empty search
  term with the whole catalog, but the side bar's script is the only sender of its
  messages and sends no such query.
\<close>

lemma handleSearchMessage_blank:
  assumes "\<forall>c\<in>set q. isSpace c"
  shows "handleSearchMessage \<lparr>command = c0, query = Text q\<rparr> = None"
  using assms by (simp add: handleSearchMessage_def toLowerCase_blank trim_blank)

lemma handleWebviewMessage_blank:
  "handleWebviewMessage \<lparr>command = ''search'', query = Text []\<rparr> = Some LIBRARY_DATABASE \<and>
   handleWebviewMessage \<lparr>command = ''search'', query = Text ''   ''\<rparr> = Some LIBRARY_DATABASE"
  by code_simp

text \<open>
  A query that is not blank reaches the handler as the script trimmed it, and the answer
  is shown: the search for \<open>printf\<close> from the side bar ends in three cards.
\<close>

lemma trim_nonblank:
  assumes "\<exists>c\<in>set q. \<not> isSpace c"
  shows "trim q \<noteq> []"
proof -
  let ?d = "dropWhile isSpace q"
  from assms have d: "?d \<noteq> []" by (simp add: dropWhile_eq_Nil_conv)
  then have "\<not> isSpace (hd ?d)" by (rule hd_dropWhile)
  moreover from d have "hd ?d \<in> set (rev ?d)" by simp
  ultimately have "dropWhile isSpace (rev ?d) \<noteq> []" by (auto simp: dropWhile_eq_Nil_conv)
  then show ?thesis by (simp add: trim_def trimStart_def trimEnd_def)
qed

lemma nonblank_query_is_posted:
  assumes "\<exists>c\<in>set q. \<not> isSpace c"
  shows "sidebar_performSearch q = Inr \<lparr>command = ''search'', query = Text (trim q)\<rparr> \<and>
         panel_performSearch q = Inr \<lparr>command = ''search'', query = Text (trim q)\<rparr>"
  using trim_nonblank[OF assms]
  by (simp add: sidebar_performSearch_def panel_performSearch_def)

lemma sidebar_search_printf:
  "sidebar_search '' printf '' = Some (Cards [entry_printf, entry_fprintf, entry_sprintf])"
  by code_simp

section \<open>Facts about strings\<close>

lemma str_includes_iff: "str_includes s t \<longleftrightarrow> (\<exists>pre post. s = pre @ t @ post)"
proof (induction s)
  case Nil
  then show ?case by auto
next
  case (Cons c cs)
  show ?case
  proof
    assume "str_includes (c # cs) t"
    then consider "prefix t (c # cs)" | "str_includes cs t" by auto
    then show "\<exists>pre post. c # cs = pre @ t @ post"
    proof cases
      case 1
      then obtain post where "c # cs = t @ post" by (auto simp: prefix_def)
      then show ?thesis by (intro exI[of _ "[]"] exI[of _ post]) simp
    next
      case 2
      with Cons.IH obtain pre post where "cs = pre @ t @ post" by auto
      then show ?thesis by (intro exI[of _ "c # pre"] exI[of _ post]) simp
    qed
  next
    assume "\<exists>pre post. c # cs = pre @ t @ post"
    then obtain pre post where e: "c # cs = pre @ t @ post" by auto
    show "str_includes (c # cs) t"
    proof (cases pre)
      case Nil
      with e have "prefix t (c # cs)" by (simp add: prefix_def)
      then show ?thesis by simp
    next
      case (Cons a pre')
      with e have "cs = pre' @ t @ post" by simp
      then have "\<exists>pre post. cs = pre @ t @ post" by (intro exI)
      with Cons.IH have "str_includes cs t" by simp
      then show ?thesis by simp
    qed
  qed
qed

lemma str_includesI: "s = pre @ t @ post \<Longrightarrow> str_includes s t"
  unfolding str_includes_iff by (intro exI)




section \<open>Reference lookup: the query of the command\<close>

text \<open>
  The command has no prompt to show.  It does nothing for the empty query, and for a
  query of white space it finds no entry, since no name in the catalog has white space
  in it: it shows its message and posts no result list.
\<close>

lemma catalog_names_plain:
  "\<forall>func\<in>set LIBRARY_DATABASE. \<forall>c\<in>set (toLowerCase (name func)). \<not> isSpace c"
  by code_simp

lemma searchReferenceCommand_blank:
  assumes "\<forall>c\<in>set q. isSpace c"
  shows "searchReferenceCommand (Some q) =
           (if q = [] then None
            else Some (Inr (''No functions found matching '' @ [CHR 0x22] @ q @ [CHR 0x22])))"
proof (cases q)
  case Nil
  then show ?thesis by (simp add: searchReferenceCommand_def)
next
  case (Cons c q')
  have "\<not> str_includes (toLowerCase (name func)) (toLowerCase q)"
    if func: "func \<in> set LIBRARY_DATABASE" for func
  proof
    assume "str_includes (toLowerCase (name func)) (toLowerCase q)"
    then obtain pre post where "toLowerCase (name func) = pre @ q @ post"
      unfolding toLowerCase_blank[OF assms] str_includes_iff by blast
    with Cons have "c \<in> set (toLowerCase (name func))" by simp
    moreover from assms Cons have "isSpace c" by simp
    ultimately show False using catalog_names_plain func by blast
  qed
  then have "filter (\<lambda>func. str_includes (toLowerCase (name func)) (toLowerCase q))
               LIBRARY_DATABASE = []"
    by (simp add: filter_empty_conv)
  with Cons show ?thesis by (simp add: searchReferenceCommand_def searchReference_def)
qed

section \<open>Diagnostic scanner: unsafe functions\<close>

lemma foldl_keeps:
  assumes "\<And>acc e. set acc \<subseteq> set (f acc e)"
  shows "set acc \<subseteq> set (foldl f acc es)"
proof (induction es arbitrary: acc)
  case Nil
  then show ?case by simp
next
  case (Cons e es)
  have "set acc \<subseteq> set (f acc e)" by (rule assms)
  also have "\<dots> \<subseteq> set (foldl f (f acc e) es)" by (rule Cons.IH)
  finally show ?case by simp
qed

lemma foldl_adds:
  assumes keep: "\<And>acc e. set acc \<subseteq> set (f acc e)"
    and e: "e \<in> set es"
    and add: "\<And>acc. d \<in> set (f acc e)"
  shows "d \<in> set (foldl f acc es)"
  using e
proof (induction es arbitrary: acc)
  case Nil
  then show ?case by simp
next
  case (Cons x xs)
  show ?case
  proof (cases "x = e")
    case True
    have "d \<in> set (f acc e)" by (rule add)
    with foldl_keeps[of f "f acc e" xs, OF keep] True show ?thesis by auto
  next
    case False
    with Cons.prems have "e \<in> set xs" by simp
    from Cons.IH[OF this] show ?thesis by simp
  qed
qed

lemma checkUnsafeFunctions_fold:
  "checkUnsafeFunctions line n ds =
     (if startsWith (trim line) ''//'' \<or> startsWith (trim line) ''/*'' \<or> startsWith (trim line) ''*''
      then ds else foldl (unsafeStep line n) ds UNSAFE_FUNCTIONS)"
  by (simp add: checkUnsafeFunctions_def Let_def)

lemma unsafeStep_keeps: "set acc \<subseteq> set (unsafeStep line n acc e)"
  by (cases e) (auto simp: unsafeStep_def Let_def)

lemma unsafe_entry_flagged:
  assumes pair: "(unsafeFunc, safeFunc) \<in> set UNSAFE_FUNCTIONS"
    and guard: "\<not> startsWith (trim line) ''//''" "\<not> startsWith (trim line) ''/*''"
      "\<not> startsWith (trim line) ''*''"
    and inc: "str_includes line (unsafeFunc @ ''('')"
    and notafter: "indexOf line ''//'' = -1 \<or> indexOf line unsafeFunc \<le> indexOf line ''//''"
  shows "\<lparr>startLine = int n, startCol = indexOf line unsafeFunc, endLine = int n,
          endCol = indexOf line unsafeFunc + int (length unsafeFunc),
          message = unsafeMessage unsafeFunc safeFunc, severity = Warning\<rparr>
           \<in> set (checkUnsafeFunctions line n ds)"
proof -
  let ?d = "\<lparr>startLine = int n, startCol = indexOf line unsafeFunc, endLine = int n,
          endCol = indexOf line unsafeFunc + int (length unsafeFunc),
          message = unsafeMessage unsafeFunc safeFunc, severity = Warning\<rparr>"
  have "?d \<in> set (unsafeStep line n acc (unsafeFunc, safeFunc))" for acc
    using inc notafter by (auto simp: unsafeStep_def Let_def)
  then have "?d \<in> set (foldl (unsafeStep line n) ds UNSAFE_FUNCTIONS)"
    using foldl_adds[of "unsafeStep line n" "(unsafeFunc, safeFunc)" UNSAFE_FUNCTIONS ?d ds]
      unsafeStep_keeps pair by simp
  with guard show ?thesis by (simp add: checkUnsafeFunctions_fold)
qed




lemma includes_gets: "str_includes line ''fgets('' \<Longrightarrow> str_includes line ''gets(''"
proof -
  assume "str_includes line ''fgets(''"
  then obtain pre post where "line = pre @ ''fgets('' @ post" unfolding str_includes_iff by auto
  then have "line = (pre @ ''f'') @ ''gets('' @ post" by simp
  then show ?thesis by (rule str_includesI)
qed

text \<open>
  C10.  \<open>fgets(\<close> contains \<open>gets(\<close>.  So a line that contains \<open>fgets(\<close>, whose trimmed
  text does not start with \<open>//\<close>, \<open>/*\<close> or \<open>*\<close>, and in which the first \<open>gets\<close> is not
  after a \<open>//\<close>, gets the Warning against \<open>gets\<close>, placed on the first \<open>gets\<close> of the line.
\<close>

theorem fgets_flagged_as_gets:
  assumes "str_includes line ''fgets(''"
    and "\<not> startsWith (trim line) ''//''" "\<not> startsWith (trim line) ''/*''"
      "\<not> startsWith (trim line) ''*''"
    and "indexOf line ''//'' = -1 \<or> indexOf line ''gets'' \<le> indexOf line ''//''"
  shows "\<lparr>startLine = int n, startCol = indexOf line ''gets'', endLine = int n,
          endCol = indexOf line ''gets'' + 4,
          message = ''Unsafe function 'gets'. Consider using 'fgets' instead.'',
          severity = Warning\<rparr> \<in> set (checkUnsafeFunctions line n ds)"
proof -
  have pair: "(''gets'', ''fgets'') \<in> set UNSAFE_FUNCTIONS" by (simp add: UNSAFE_FUNCTIONS_def)
  have inc: "str_includes line (''gets'' @ ''('')" using includes_gets[OF assms(1)] by simp
  have m: "unsafeMessage ''gets'' ''fgets'' =
      ''Unsafe function 'gets'. Consider using 'fgets' instead.''"
    by (simp add: unsafeMessage_def)
  from unsafe_entry_flagged[OF pair assms(2-4) inc assms(5), of n ds] show ?thesis
    unfolding m by simp
qed

text \<open>The theorem at a call of \<open>fgets\<close>: columns 3 to 7 are the \<open>gets\<close> inside it.\<close>

theorem fgets_flagged_as_gets_witness:
  "\<lparr>startLine = 7, startCol = 3, endLine = 7, endCol = 7,
    message = ''Unsafe function 'gets'. Consider using 'fgets' instead.'',
    severity = Warning\<rparr> \<in> set (checkUnsafeFunctions ''  fgets(buf, 80, stdin);'' 7 [])"
proof -
  let ?line = "''  fgets(buf, 80, stdin);''"
  have a: "str_includes ?line ''fgets(''" by code_simp
  have g: "\<not> startsWith (trim ?line) ''//''" "\<not> startsWith (trim ?line) ''/*''"
    "\<not> startsWith (trim ?line) ''*''" by code_simp+
  have c: "indexOf ?line ''//'' = -1" by code_simp
  have i: "indexOf ?line ''gets'' = 3" by code_simp
  from fgets_flagged_as_gets[OF a g, of 7 "[]"] show ?thesis unfolding i c by simp
qed

section \<open>Facts about the search for a match\<close>

lemma search_finds:
  "matches r (lastChar p pre) suf [] \<noteq> [] \<Longrightarrow> search r p (pre @ suf) \<noteq> None"
proof (induction pre arbitrary: p)
  case Nil
  then show ?case by (cases suf; cases "matches r p suf []") (auto simp: lastChar_def)
next
  case (Cons a pre)
  have "lastChar (Some a) pre = lastChar p (a # pre)" by (simp add: lastChar_def)
  with Cons.prems have "matches r (lastChar (Some a) pre) suf [] \<noteq> []" by simp
  from Cons.IH[OF this] show ?case by (cases "matches r p (a # pre @ suf) []") auto
qed

lemma search_finds_iff:
  "search r p s \<noteq> None \<longleftrightarrow> (\<exists>pre suf. s = pre @ suf \<and> matches r (lastChar p pre) suf [] \<noteq> [])"
proof
  assume "search r p s \<noteq> None"
  then show "\<exists>pre suf. s = pre @ suf \<and> matches r (lastChar p pre) suf [] \<noteq> []"
  proof (induction s arbitrary: p)
    case Nil
    then have "matches r p [] [] \<noteq> []" by (auto split: list.splits)
    then show ?case
      by (intro exI[of _ "[]"]) (simp add: lastChar_def)
  next
    case (Cons c t)
    show ?case
    proof (cases "matches r p (c # t) [] = []")
      case False
      then show ?thesis
        by (intro exI[of _ "[]"] exI[of _ "c # t"]) (simp add: lastChar_def)
    next
      case True
      with Cons.prems have "search r (Some c) t \<noteq> None" by simp
      from Cons.IH[OF this] obtain pre suf where
        ps: "t = pre @ suf" "matches r (lastChar (Some c) pre) suf [] \<noteq> []" by blast
      have "lastChar (Some c) pre = lastChar p (c # pre)" by (simp add: lastChar_def)
      with ps show ?thesis
        by (intro exI[of _ "c # pre"] exI[of _ suf]) simp
    qed
  qed
next
  assume "\<exists>pre suf. s = pre @ suf \<and> matches r (lastChar p pre) suf [] \<noteq> []"
  then obtain pre suf where "s = pre @ suf" "matches r (lastChar p pre) suf [] \<noteq> []" by blast
  then show "search r p s \<noteq> None" using search_finds by simp
qed

lemma test_iff:
  "test r s \<longleftrightarrow> (\<exists>pre suf. s = pre @ suf \<and> matches r (lastChar None pre) suf [] \<noteq> [])"
  unfolding test_def by (rule search_finds_iff)

lemma testI: "s = pre @ suf \<Longrightarrow> matches r (lastChar None pre) suf [] \<noteq> [] \<Longrightarrow> test r s"
  unfolding test_iff by (intro exI[of _ pre] exI[of _ suf]) simp

section \<open>Semicolon heuristic: lines that end a statement or open a block\<close>

lemma test_opener:
  assumes "s \<noteq> []" "last s \<in> {CHR ''{'', CHR '':'', CHR ''[''}"
  shows "test re_opener s"
proof (rule testI)
  show "s = butlast s @ [last s]" using assms(1) by simp
  show "matches re_opener (lastChar None (butlast s)) [last s] [] \<noteq> []"
    using assms(2) by (auto simp: re_opener_def)
qed

lemma endsWith_single: "endsWith s [c] \<longleftrightarrow> s \<noteq> [] \<and> last s = c"
proof
  assume "endsWith s [c]"
  then show "s \<noteq> [] \<and> last s = c" by (auto simp: endsWith_def suffix_def)
next
  assume a: "s \<noteq> [] \<and> last s = c"
  then have "s = butlast s @ [c]" by auto
  then show "endsWith s [c]" unfolding endsWith_def suffix_def by (rule exI)
qed

lemma closing_brace_alone: "\<not> test re_opener ''}'' \<and> test re_closing_brace ''}''"
  by code_simp

text \<open>
  C4, as the code has it.  A line whose trimmed text ends in \<open>;\<close>, \<open>{\<close>, \<open>:\<close> or \<open>[\<close>,
  or whose trimmed text is the single character \<open>}\<close>, gets no semicolon.
\<close>

theorem shouldAddSemicolon_terminated:
  assumes "endsWith (trim text) '';'' \<or> endsWith (trim text) ''{'' \<or> endsWith (trim text) '':'' \<or>
           endsWith (trim text) ''['' \<or> trim text = ''}''"
  shows "\<not> shouldAddSemicolon text"
proof -
  consider "endsWith (trim text) '';''"
    | "trim text \<noteq> []" "last (trim text) \<in> {CHR ''{'', CHR '':'', CHR ''[''}"
    | "trim text = ''}''"
    using assms by (auto simp: endsWith_single)
  then show ?thesis
  proof cases
    case 1
    then show ?thesis by (simp add: shouldAddSemicolon_def Let_def)
  next
    case 2
    from test_opener[OF this] show ?thesis by (simp add: shouldAddSemicolon_def Let_def)
  next
    case 3
    with closing_brace_alone show ?thesis by (simp add: shouldAddSemicolon_def Let_def endsWith_def)
  qed
qed

text \<open>The theorem at a line that opens a block and at a closing brace.\<close>

theorem shouldAddSemicolon_terminated_witness:
  "\<not> shouldAddSemicolon ''  while (x > 0) {  '' \<and> \<not> shouldAddSemicolon ''}''"
proof -
  have "endsWith (trim ''  while (x > 0) {  '') ''{''" by code_simp
  then have a: "\<not> shouldAddSemicolon ''  while (x > 0) {  ''"
    by (intro shouldAddSemicolon_terminated) simp
  have "trim ''}'' = ''}''" by code_simp
  then have b: "\<not> shouldAddSemicolon ''}''"
    by (intro shouldAddSemicolon_terminated) simp
  from a b show ?thesis by simp
qed

text \<open>
  C4 as stated fails for \<open>}\<close>: only a line that is nothing but the brace is left alone.
  An initializer ends in \<open>}\<close> and is given its semicolon.
\<close>

theorem closing_brace_line_gets_semicolon:
  "endsWith (trim ''int a[] = {1,2}'') ''}'' \<and> shouldAddSemicolon ''int a[] = {1,2}''"
  by code_simp

section \<open>Facts about the matcher\<close>

text \<open>
  A match ends in a suffix of the input, and what it captures is made of characters of
  the input.
\<close>

lemma extends_refl: "extends s caps caps"
  unfolding extends_def by (intro exI[of _ "[]"]) simp

lemma extends_trans:
  assumes "extends s a b" "extends s' b c" "set s' \<subseteq> set s"
  shows "extends s a c"
proof -
  from assms(1) obtain n1 where n1: "b = a @ n1" "\<forall>c\<in>set n1. set c \<subseteq> set s"
    unfolding extends_def by auto
  from assms(2) obtain n2 where n2: "c = b @ n2" "\<forall>c\<in>set n2. set c \<subseteq> set s'"
    unfolding extends_def by auto
  from n1 n2 assms(3) show ?thesis
    unfolding extends_def by (intro exI[of _ "n1 @ n2"]) auto
qed

lemma matches_sound:
  "(p', s', caps') \<in> set (matches r p s caps) \<Longrightarrow> suffix s' s \<and> extends s caps caps'"
proof (induction r p s caps arbitrary: p' s' caps' rule: matches.induct)
  case (1 cs p s caps)
  then show ?case by (auto split: list.splits if_splits simp: suffix_Cons extends_refl)
next
  case (2 cs p s caps)
  then show ?case by (auto split: list.splits if_splits simp: suffix_Cons extends_refl)
next
  case (3 p s caps)
  then show ?case by (auto split: list.splits if_splits simp: suffix_Cons extends_refl)
next
  case (4 p s caps)
  then show ?case by (simp add: extends_refl)
next
  case (5 a b p s caps)
  from "5.prems" obtain p1 s1 c1 where
    m1: "(p1, s1, c1) \<in> set (matches a p s caps)" and
    m2: "(p', s', caps') \<in> set (matches b p1 s1 c1)" by auto
  from "5.IH"(1)[OF m1] have a: "suffix s1 s" "extends s caps c1" by auto
  from "5.IH"(2)[OF m1 refl refl m2] have b: "suffix s' s1" "extends s1 c1 caps'" by auto
  from a(1) have sub: "set s1 \<subseteq> set s" by (rule set_mono_suffix)
  have "suffix s' s" using b(1) a(1) by (rule suffix_order.trans)
  moreover have "extends s caps caps'" by (rule extends_trans[OF a(2) b(2) sub])
  ultimately show ?case by simp
next
  case (6 a b p s caps)
  then show ?case by auto
next
  case (7 a p s caps)
  from "7.prems" consider "(p', s', caps') = (p, s, caps)"
    | p1 s1 c1 where "(p1, s1, c1) \<in> set (matches a p s caps)" "length s1 < length s"
        "(p', s', caps') \<in> set (matches (Star a) p1 s1 c1)"
    by (subst (asm) matches.simps(7)) (auto split: if_splits)
  then show ?case
  proof cases
    case 1
    then show ?thesis by (simp add: extends_refl)
  next
    case 2
    from "7.IH"(1)[OF 2(1)] have a: "suffix s1 s" "extends s caps c1" by auto
    from "7.IH"(2)[OF 2(1) refl refl 2(2) 2(3)] have b: "suffix s' s1" "extends s1 c1 caps'" by auto
    from a(1) have sub: "set s1 \<subseteq> set s" by (rule set_mono_suffix)
    have "suffix s' s" using b(1) a(1) by (rule suffix_order.trans)
    moreover have "extends s caps caps'" by (rule extends_trans[OF a(2) b(2) sub])
    ultimately show ?thesis by simp
  qed
next
  case (8 a p s caps)
  from "8.prems" consider "(p', s', caps') = (p, s, caps)"
    | p1 s1 c1 where "(p1, s1, c1) \<in> set (matches a p s caps)" "length s1 < length s"
        "(p', s', caps') \<in> set (matches (LazyStar a) p1 s1 c1)"
    by (subst (asm) matches.simps(8)) (auto split: if_splits)
  then show ?case
  proof cases
    case 1
    then show ?thesis by (simp add: extends_refl)
  next
    case 2
    from "8.IH"(1)[OF 2(1)] have a: "suffix s1 s" "extends s caps c1" by auto
    from "8.IH"(2)[OF 2(1) refl refl 2(2) 2(3)] have b: "suffix s' s1" "extends s1 c1 caps'" by auto
    from a(1) have sub: "set s1 \<subseteq> set s" by (rule set_mono_suffix)
    have "suffix s' s" using b(1) a(1) by (rule suffix_order.trans)
    moreover have "extends s caps caps'" by (rule extends_trans[OF a(2) b(2) sub])
    ultimately show ?thesis by simp
  qed
next
  case (9 a p s caps)
  from "9.prems" obtain c1 where
    m: "(p', s', c1) \<in> set (matches a p s caps)" and
    c: "caps' = c1 @ [take (length s - length s') s]" by auto
  from "9.IH"[OF m] have a: "suffix s' s" "extends s caps c1" by auto
  have "extends s c1 caps'"
    unfolding extends_def c
    by (intro exI[of _ "[take (length s - length s') s]"]) (auto dest: in_set_takeD)
  then have "extends s caps caps'" by (rule extends_trans[OF a(2) _ subset_refl])
  with a show ?case by simp
next
  case (10 p s caps)
  then show ?case by (auto split: if_splits simp: extends_refl)
next
  case (11 p s caps)
  then show ?case by (auto split: if_splits simp: extends_refl)
next
  case (12 p s caps)
  then show ?case by (auto split: if_splits simp: extends_refl)
qed

lemma search_sound:
  "search r p s = Some (p', s', caps') \<Longrightarrow> suffix s' s \<and> (\<forall>c\<in>set caps'. set c \<subseteq> set s)"
proof (induction s arbitrary: p)
  case Nil
  then have "(p', s', caps') \<in> set (matches r p [] [])" by (auto split: list.splits)
  from matches_sound[OF this] show ?case by (auto simp: extends_def)
next
  case (Cons c t)
  show ?case
  proof (cases "matches r p (c # t) []")
    case Nil
    with Cons.prems have "search r (Some c) t = Some (p', s', caps')" by simp
    from Cons.IH[OF this] show ?thesis by (auto simp: suffix_Cons)
  next
    case (Cons m ms)
    with Cons.prems have "(p', s', caps') \<in> set (matches r p (c # t) [])" by simp
    from matches_sound[OF this] show ?thesis by (auto simp: extends_def)
  qed
qed

lemma match_groups_sound:
  "match_groups r s = Some caps \<Longrightarrow> \<forall>c\<in>set caps. set c \<subseteq> set s"
  using search_sound by (fastforce simp: match_groups_def split: option.splits)

text \<open>
  More precisely, what a match captures is made of characters of the part it has read.
\<close>

lemma extends_mono: "extends u a b \<Longrightarrow> set u \<subseteq> set v \<Longrightarrow> extends v a b"
  unfolding extends_def by blast

lemma read_both:
  assumes "s = u1 @ s1" "extends u1 caps c1" "s1 = u2 @ s'" "extends u2 c1 caps'"
  shows "\<exists>u. s = u @ s' \<and> extends u caps caps'"
proof -
  have "extends (u1 @ u2) caps c1" by (rule extends_mono[OF assms(2)]) simp
  moreover have "extends u2 c1 caps'" by (rule assms(4))
  ultimately have "extends (u1 @ u2) caps caps'" by (rule extends_trans) simp
  with assms(1,3) show ?thesis by (intro exI[of _ "u1 @ u2"]) simp
qed

lemma matches_within:
  "(p', s', caps') \<in> set (matches r p s caps) \<Longrightarrow> \<exists>u. s = u @ s' \<and> extends u caps caps'"
proof (induction r p s caps arbitrary: p' s' caps' rule: matches.induct)
  case (1 cs p s caps)
  then show ?case by (cases s) (auto split: if_splits simp: extends_refl)
next
  case (2 cs p s caps)
  then show ?case by (cases s) (auto split: if_splits simp: extends_refl)
next
  case (3 p s caps)
  then show ?case by (cases s) (auto split: if_splits simp: extends_refl)
next
  case (4 p s caps)
  then show ?case by (simp add: extends_refl)
next
  case (5 a b p s caps)
  from "5.prems" obtain p1 s1 c1 where
    m1: "(p1, s1, c1) \<in> set (matches a p s caps)" and
    m2: "(p', s', caps') \<in> set (matches b p1 s1 c1)" by auto
  from "5.IH"(1)[OF m1] obtain u1 where a: "s = u1 @ s1" "extends u1 caps c1" by auto
  from "5.IH"(2)[OF m1 refl refl m2] obtain u2 where b: "s1 = u2 @ s'" "extends u2 c1 caps'"
    by auto
  from read_both[OF a b] show ?case .
next
  case (6 a b p s caps)
  then show ?case by auto
next
  case (7 a p s caps)
  from "7.prems" consider "(p', s', caps') = (p, s, caps)"
    | p1 s1 c1 where "(p1, s1, c1) \<in> set (matches a p s caps)" "length s1 < length s"
        "(p', s', caps') \<in> set (matches (Star a) p1 s1 c1)"
    by (subst (asm) matches.simps(7)) (auto split: if_splits)
  then show ?case
  proof cases
    case 1
    then show ?thesis by (simp add: extends_refl)
  next
    case 2
    from "7.IH"(1)[OF 2(1)] obtain u1 where a: "s = u1 @ s1" "extends u1 caps c1" by auto
    from "7.IH"(2)[OF 2(1) refl refl 2(2) 2(3)] obtain u2 where
      b: "s1 = u2 @ s'" "extends u2 c1 caps'" by auto
    from read_both[OF a b] show ?thesis .
  qed
next
  case (8 a p s caps)
  from "8.prems" consider "(p', s', caps') = (p, s, caps)"
    | p1 s1 c1 where "(p1, s1, c1) \<in> set (matches a p s caps)" "length s1 < length s"
        "(p', s', caps') \<in> set (matches (LazyStar a) p1 s1 c1)"
    by (subst (asm) matches.simps(8)) (auto split: if_splits)
  then show ?case
  proof cases
    case 1
    then show ?thesis by (simp add: extends_refl)
  next
    case 2
    from "8.IH"(1)[OF 2(1)] obtain u1 where a: "s = u1 @ s1" "extends u1 caps c1" by auto
    from "8.IH"(2)[OF 2(1) refl refl 2(2) 2(3)] obtain u2 where
      b: "s1 = u2 @ s'" "extends u2 c1 caps'" by auto
    from read_both[OF a b] show ?thesis .
  qed
next
  case (9 a p s caps)
  from "9.prems" obtain c1 where
    m: "(p', s', c1) \<in> set (matches a p s caps)" and
    c: "caps' = c1 @ [take (length s - length s') s]" by auto
  from "9.IH"[OF m] obtain u where a: "s = u @ s'" "extends u caps c1" by auto
  from a(1) have "take (length s - length s') s = u" by simp
  with c have "extends u c1 caps'"
    unfolding extends_def by (intro exI[of _ "[u]"]) simp
  with a(2) have "extends u caps caps'" by (rule extends_trans) simp
  with a(1) show ?case by blast
next
  case (10 p s caps)
  then show ?case by (auto split: if_splits simp: extends_refl)
next
  case (11 p s caps)
  then show ?case by (auto split: if_splits simp: extends_refl)
next
  case (12 p s caps)
  then show ?case by (auto split: if_splits simp: extends_refl)
qed

lemma search_Some:
  "search r p s = Some (p', s', caps') \<Longrightarrow>
     \<exists>pre suf. s = pre @ suf \<and> (p', s', caps') \<in> set (matches r (lastChar p pre) suf [])"
proof (induction s arbitrary: p)
  case Nil
  then have "(p', s', caps') \<in> set (matches r p [] [])" by (auto split: list.splits)
  then show ?case by (intro exI[of _ "[]"]) (simp add: lastChar_def)
next
  case (Cons c t)
  show ?case
  proof (cases "matches r p (c # t) []")
    case Nil
    with Cons.prems have "search r (Some c) t = Some (p', s', caps')" by simp
    from Cons.IH[OF this] obtain pre suf where
      ps: "t = pre @ suf" "(p', s', caps') \<in> set (matches r (lastChar (Some c) pre) suf [])"
      by blast
    have "lastChar (Some c) pre = lastChar p (c # pre)" by (simp add: lastChar_def)
    with ps show ?thesis by (intro exI[of _ "c # pre"] exI[of _ suf]) simp
  next
    case (Cons m ms)
    with Cons.prems have "(p', s', caps') \<in> set (matches r p (c # t) [])" by simp
    then show ?thesis by (intro exI[of _ "[]"] exI[of _ "c # t"]) (simp add: lastChar_def)
  qed
qed

text \<open>
  A pattern written as a sequence ends as its last part ends.
\<close>

lemma endsIn_chr: "endsIn (chr c) c"
  unfolding endsIn_def chr_def by (auto split: list.splits if_splits)

lemma endsIn_Seq:
  assumes "endsIn b c"
  shows "endsIn (Seq a b) c"
  unfolding endsIn_def
proof (intro allI impI)
  fix p s caps p' s' caps'
  assume "(p', s', caps') \<in> set (matches (Seq a b) p s caps)"
  then obtain p1 s1 c1 where
    m1: "(p1, s1, c1) \<in> set (matches a p s caps)" and
    m2: "(p', s', caps') \<in> set (matches b p1 s1 c1)" by auto
  from matches_within[OF m1] obtain u where u: "s = u @ s1" by auto
  from assms m2 obtain v where "s1 = v @ c # s'" unfolding endsIn_def by blast
  with u show "\<exists>v. s = v @ c # s'" by (intro exI[of _ "u @ v"]) simp
qed

lemma endsIn_function_definition: "endsIn re_function_definition CHR ''{''"
  unfolding re_function_definition_def by (simp add: endsIn_Seq endsIn_chr)

text \<open>
  So what the pattern of a function definition captures lies before the opening brace,
  and has no carriage return when the line has none but at its very end.
\<close>

lemma function_definition_plain:
  assumes m: "match_groups re_function_definition line = Some caps"
    and cr: "CHR 0x0D \<notin> set (butlast line)"
  shows "\<forall>c\<in>set caps. CHR 0x0D \<notin> set c"
proof -
  from m obtain p' s' where "search re_function_definition None line = Some (p', s', caps)"
    by (auto simp: match_groups_def split: option.splits)
  from search_Some[OF this] obtain pre suf where
    l: "line = pre @ suf" and
    ms: "(p', s', caps) \<in> set (matches re_function_definition (lastChar None pre) suf [])"
    by blast
  from matches_within[OF ms] obtain u where u: "suf = u @ s'" "extends u [] caps" by auto
  from endsIn_function_definition ms obtain v where v: "suf = v @ CHR ''{'' # s'"
    unfolding endsIn_def by blast
  from u(1) v have uv: "u = v @ [CHR ''{'']" by simp
  have "line = (pre @ v) @ CHR ''{'' # s'" using l v by simp
  then have "set (pre @ v) \<subseteq> set (butlast line)"
    by (cases s' rule: rev_cases) (auto simp: butlast_append)
  with cr have "CHR 0x0D \<notin> set v" by auto
  with uv have "CHR 0x0D \<notin> set u" by simp
  with u(2) show ?thesis unfolding extends_def by auto
qed

section \<open>Facts about lines\<close>

lemma split_nl_nonempty: "split_nl s \<noteq> []"
  by (induction s) (auto split: list.splits)

lemma split_nl_line: "CHR 0x0A \<notin> set l \<Longrightarrow> split_nl (l @ CHR 0x0A # rest) = l # split_nl rest"
  by (induction l) auto

lemma split_nl_plain: "CHR 0x0A \<notin> set l \<Longrightarrow> split_nl l = [l]"
  by (induction l) auto

lemma split_nl_free: "l \<in> set (split_nl s) \<Longrightarrow> CHR 0x0A \<notin> set l"
proof (induction s arbitrary: l)
  case Nil
  then show ?case by simp
next
  case (Cons c cs)
  show ?case
  proof (cases "c = CHR 0x0A")
    case True
    with Cons show ?thesis by auto
  next
    case False
    obtain x xs where x: "split_nl cs = x # xs"
      using split_nl_nonempty[of cs] by (cases "split_nl cs") auto
    with False Cons.prems have "l = c # x \<or> l \<in> set xs" by auto
    with Cons.IH x False show ?thesis by auto
  qed
qed

lemma split_nl_terminated:
  "\<forall>l\<in>set ps. CHR 0x0A \<notin> set l \<Longrightarrow>
     split_nl (concat (map (\<lambda>p. p @ [CHR 0x0A]) ps)) = ps @ [[]]"
  by (induction ps) (auto simp: split_nl_line)

lemma join_nl_terminated:
  "ps \<noteq> [] \<Longrightarrow> join_nl ps @ [CHR 0x0A] = concat (map (\<lambda>p. p @ [CHR 0x0A]) ps)"
  by (induction ps rule: join_nl.induct) auto

lemma split_join:
  "ls \<noteq> [] \<Longrightarrow> \<forall>l\<in>set ls. CHR 0x0A \<notin> set l \<Longrightarrow> split_nl (join_nl ls) = ls"
proof (induction ls rule: join_nl.induct)
  case 1
  then show ?case by simp
next
  case (2 l)
  then show ?case by (simp add: split_nl_plain)
next
  case (3 l v va)
  then show ?case by (simp add: split_nl_line)
qed

lemma glue_terminated: "glue [] (xs @ [[]]) post = xs @ [post]"
proof (cases xs)
  case Nil
  then show ?thesis by simp
next
  case (Cons x xs')
  then show ?thesis by (cases xs') (auto simp: butlast_append)
qed

lemma split_nl_subset: "l \<in> set (split_nl s) \<Longrightarrow> set l \<subseteq> set s"
proof (induction s arbitrary: l)
  case Nil
  then show ?case by simp
next
  case (Cons c cs)
  show ?case
  proof (cases "c = CHR 0x0A")
    case True
    with Cons show ?thesis by auto
  next
    case False
    obtain x xs where x: "split_nl cs = x # xs"
      using split_nl_nonempty[of cs] by (cases "split_nl cs") auto
    with False Cons.prems have "l = c # x \<or> l \<in> set xs" by auto
    moreover from Cons.IH[of x] x have "set x \<subseteq> set cs" by simp
    moreover have "set l' \<subseteq> set cs" if "l' \<in> set xs" for l'
      using Cons.IH[of l'] x that by simp
    ultimately show ?thesis by auto
  qed
qed

lemma normalizeEol_line:
  "CHR 0x0D \<notin> set l \<Longrightarrow> CHR 0x0A \<notin> set l \<Longrightarrow>
     normalizeEol e (l @ CHR 0x0A # rest) = l @ eolText e @ normalizeEol e rest"
  by (induction l) auto

lemma normalizeEol_terminated:
  "\<forall>l\<in>set ps. CHR 0x0D \<notin> set l \<and> CHR 0x0A \<notin> set l \<Longrightarrow>
     normalizeEol e (concat (map (\<lambda>p. p @ [CHR 0x0A]) ps)) =
       concat (map (\<lambda>p. (p @ lineEnd e) @ [CHR 0x0A]) ps)"
proof (induction ps)
  case Nil
  then show ?case by simp
next
  case (Cons p ps)
  have "eolText e = lineEnd e @ [CHR 0x0A]" by (cases e) (simp_all add: lineEnd_def)
  with Cons show ?case by (simp add: normalizeEol_line)
qed

lemma lineEnd_free: "CHR 0x0A \<notin> set (lineEnd e)"
  by (cases e) (simp_all add: lineEnd_def)

lemma insert_lines_block:
  assumes "l < length ls" "split_nl (normalizeEol e t) = xs @ [[]]"
  shows "insert_lines e ls \<lparr>atLine = l, atCol = 0, insertText = t\<rparr> = take l ls @ xs @ drop l ls"
proof -
  from assms(1) have "min l (length ls - 1) = l" by simp
  with assms show ?thesis
    by (simp add: insert_lines_def Let_def glue_terminated Cons_nth_drop_Suc)
qed

lemma applyEdit_block:
  assumes "l < length (split_nl doc)" "split_nl (normalizeEol e t) = xs @ [[]]"
    "\<forall>x\<in>set xs. CHR 0x0A \<notin> set x"
  shows "split_nl (applyEdit e doc \<lparr>atLine = l, atCol = 0, insertText = t\<rparr>) =
           take l (split_nl doc) @ xs @ drop l (split_nl doc)"
proof -
  let ?ls = "split_nl doc"
  have free: "\<forall>x\<in>set (take l ?ls @ xs @ drop l ?ls). CHR 0x0A \<notin> set x"
    using assms(3) split_nl_free[of _ doc] by (auto dest: in_set_takeD in_set_dropD)
  have ne: "take l ?ls @ xs @ drop l ?ls \<noteq> []" using assms(1) by simp
  show ?thesis
    unfolding applyEdit_def insert_lines_block[OF assms(1,2)]
    by (rule split_join[OF ne free])
qed

text \<open>
  Whole lines inserted at the start of a line of the document become lines of their own
  there, each with the end of line of the document.
\<close>

lemma applyEdit_lines:
  assumes l: "l < length (split_nl doc)"
    and plain: "\<forall>p\<in>set ps. CHR 0x0D \<notin> set p \<and> CHR 0x0A \<notin> set p"
  shows "split_nl (applyEdit e doc
            \<lparr>atLine = l, atCol = 0, insertText = concat (map (\<lambda>p. p @ [CHR 0x0A]) ps)\<rparr>) =
           take l (split_nl doc) @ map (\<lambda>p. p @ lineEnd e) ps @ drop l (split_nl doc)"
proof -
  let ?xs = "map (\<lambda>p. p @ lineEnd e) ps"
  have free: "\<forall>x\<in>set ?xs. CHR 0x0A \<notin> set x" using plain lineEnd_free[of e] by auto
  have "normalizeEol e (concat (map (\<lambda>p. p @ [CHR 0x0A]) ps)) =
          concat (map (\<lambda>p. p @ [CHR 0x0A]) ?xs)"
    unfolding normalizeEol_terminated[OF plain] by (simp add: comp_def)
  then have sp: "split_nl (normalizeEol e (concat (map (\<lambda>p. p @ [CHR 0x0A]) ps))) = ?xs @ [[]]"
    using split_nl_terminated[OF free] by simp
  from applyEdit_block[OF l sp free] show ?thesis .
qed

section \<open>Facts about the scans for include lines\<close>

lemma last_index_None:
  "foldl (\<lambda>found i. if P i then Some i else found) None [0..<n] = None \<longleftrightarrow> (\<forall>i<n. \<not> P i)"
  by (induction n) (auto simp: less_Suc_eq)

lemma last_index_Some:
  "foldl (\<lambda>found i. if P i then Some i else found) None [0..<n] = Some L \<longleftrightarrow>
     L < n \<and> P L \<and> (\<forall>k. L < k \<and> k < n \<longrightarrow> \<not> P k)"
proof (induction n)
  case 0
  then show ?case by simp
next
  case (Suc n)
  show ?case
  proof (cases "P n")
    case True
    then show ?thesis by (auto simp: less_Suc_eq)
  next
    case False
    with Suc show ?thesis by (auto simp: less_Suc_eq)
  qed
qed

lemma insertion_index:
  "foldl (\<lambda>ins i. if P i then i + 1 else ins) 0 [0..<n] =
     (case foldl (\<lambda>found i. if P i then Some i else found) None [0..<n] of
        None \<Rightarrow> 0 | Some L \<Rightarrow> Suc L)"
  by (induction n) auto

lemma lastIncludeLine_None:
  "lastIncludeLine lines = None \<longleftrightarrow> (\<forall>i<length lines. \<not> isIncludeLine (lines ! i))"
  unfolding lastIncludeLine_def by (rule last_index_None)

lemma lastIncludeLine_Some:
  "lastIncludeLine lines = Some L \<longleftrightarrow>
     L < length lines \<and> isIncludeLine (lines ! L) \<and>
     (\<forall>k. L < k \<and> k < length lines \<longrightarrow> \<not> isIncludeLine (lines ! k))"
  unfolding lastIncludeLine_def by (rule last_index_Some)

lemma insertionLine_last:
  "insertionLine lines = (case lastIncludeLine lines of None \<Rightarrow> 0 | Some L \<Rightarrow> Suc L)"
  unfolding insertionLine_def lastIncludeLine_def by (rule insertion_index)

section \<open>Prototype synthesis: when it stops and what it inserts\<close>

text \<open>
  C9.  Prototype synthesis issues no edit for a document without an include line (a line
  whose trimmed text starts with \<open>#include\<close>), and none for a document in which no line
  after the last include line opens \<open>main\<close>, whatever the flag and the editor are.
\<close>

theorem autoGeneratePrototypes_aborts:
  assumes lines: "lines = split_nl documentText"
    and none: "(\<forall>l\<in>set lines. \<not> isIncludeLine l) \<or>
       (\<forall>j<length lines.
           (\<exists>i<j. isIncludeLine (lines ! i)) \<and>
           (\<forall>k. j \<le> k \<and> k < length lines \<longrightarrow> \<not> isIncludeLine (lines ! k)) \<longrightarrow>
           \<not> test re_main (lines ! j))"
  shows "autoGeneratePrototypes isProcessingChange editorOnDocument documentText = None"
proof (cases "lastIncludeLine lines")
  case None
  then show ?thesis by (simp add: autoGeneratePrototypes_def lines)
next
  case (Some L)
  then have L: "L < length lines" "isIncludeLine (lines ! L)"
    "\<forall>k. L < k \<and> k < length lines \<longrightarrow> \<not> isIncludeLine (lines ! k)"
    unfolding lastIncludeLine_Some by auto
  from L(1,2) have "\<not> (\<forall>l\<in>set lines. \<not> isIncludeLine l)" by auto
  with none have after: "\<forall>j<length lines.
           (\<exists>i<j. isIncludeLine (lines ! i)) \<and>
           (\<forall>k. j \<le> k \<and> k < length lines \<longrightarrow> \<not> isIncludeLine (lines ! k)) \<longrightarrow>
           \<not> test re_main (lines ! j)" by simp
  have "\<not> test re_main (lines ! j)" if j: "L + 1 \<le> j" "j < length lines" for j
  proof -
    from j L(2) have "\<exists>i<j. isIncludeLine (lines ! i)" by (intro exI[of _ L]) simp
    moreover from j L(3) have "\<forall>k. j \<le> k \<and> k < length lines \<longrightarrow> \<not> isIncludeLine (lines ! k)"
      by auto
    ultimately show ?thesis using after j(2) by simp
  qed
  then have "mainLine lines (L + 1) = None"
    unfolding mainLine_def by (auto simp: find_None_iff)
  with Some show ?thesis by (simp add: autoGeneratePrototypes_def lines)
qed

lemma trim_subset: "set (trim s) \<subseteq> set s"
  unfolding trim_def trimStart_def trimEnd_def
  by (auto dest!: set_dropWhileD)

lemma endsWith_append: "endsWith (xs @ t) t"
  unfolding endsWith_def by (rule suffixI[OF refl])

text \<open>
  The two scans of the pass, from what the lines are.
\<close>

lemma lastIncludeLine_last:
  assumes "L < length lines" "isIncludeLine (lines ! L)"
    "\<forall>l\<in>set (drop (L + 1) lines). \<not> isIncludeLine l"
  shows "lastIncludeLine lines = Some L"
proof -
  have "\<not> isIncludeLine (lines ! k)" if k: "L < k" "k < length lines" for k
  proof -
    from k have "lines ! k = drop (L + 1) lines ! (k - (L + 1))" by simp
    moreover from k have "k - (L + 1) < length (drop (L + 1) lines)" by simp
    ultimately have "lines ! k \<in> set (drop (L + 1) lines)" by (metis nth_mem)
    with assms(3) show ?thesis by simp
  qed
  with assms(1,2) show ?thesis unfolding lastIncludeLine_Some by simp
qed

lemma mainLine_first:
  assumes "start \<le> M" "M < length lines" "test re_main (lines ! M)"
    "\<forall>l\<in>set (take (M - start) (drop start lines)). \<not> test re_main l"
  shows "mainLine lines start = Some M"
proof -
  let ?P = "\<lambda>i. test re_main (lines ! i)"
  let ?xs = "[start..<length lines]"
  have i: "M - start < length ?xs" using assms(1,2) by simp
  have at: "?xs ! (M - start) = M" using assms(1,2) by simp
  have before: "\<not> ?P (?xs ! j)" if j: "j < M - start" for j
  proof -
    from j assms(2) have "take (M - start) (drop start lines) ! j = lines ! (start + j)" by simp
    moreover from j assms(2) have "j < length (take (M - start) (drop start lines))" by simp
    ultimately have "lines ! (start + j) \<in> set (take (M - start) (drop start lines))"
      by (metis nth_mem)
    with assms(4) have "\<not> test re_main (lines ! (start + j))" by simp
    moreover from j assms(2) have "?xs ! j = start + j" by simp
    ultimately show ?thesis by simp
  qed
  show ?thesis
    unfolding mainLine_def find_Some_iff
    using i at before assms(3) by (intro exI[of _ "M - start"]) simp
qed

lemma nth_from: "map (\<lambda>i. f (xs ! i)) [a..<length xs] = map f (drop a xs)"
proof -
  have "map f (drop a xs) = map f (drop a (map ((!) xs) [0..<length xs]))" by (simp add: map_nth)
  also have "\<dots> = map (\<lambda>i. f (xs ! i)) [a..<length xs]" by (simp add: drop_map comp_def)
  finally show ?thesis by simp
qed

text \<open>
  What a round of the loop pushes, and what is kept of it, in terms of what the line
  defines.
\<close>

lemma triple_other:
  "\<not> (\<exists>a b c. caps = [a, b, c]) \<Longrightarrow> (case caps of [a, b, c] \<Rightarrow> g a b c | _ \<Rightarrow> d) = d"
  by (cases caps; cases "tl caps"; cases "tl (tl caps)"; cases "tl (tl (tl caps))") auto

lemma definedAt_Some:
  "definedAt line = Some (rt, fn, ps) \<longleftrightarrow>
     match_groups re_function_definition line = Some [rt, fn, ps]"
proof (cases "match_groups re_function_definition line")
  case None
  then show ?thesis by (simp add: definedAt_def)
next
  case (Some caps)
  show ?thesis
  proof (cases "\<exists>a b c. caps = [a, b, c]")
    case True
    then obtain a b c where "caps = [a, b, c]" by auto
    with Some show ?thesis by (simp add: definedAt_def)
  next
    case False
    from triple_other[OF this, where g = "\<lambda>a b c. Some (a, b, c)" and d = None] Some False
    show ?thesis by (simp add: definedAt_def)
  qed
qed

lemma definedAt_None:
  "definedAt line = None \<Longrightarrow> functionAt line = []"
proof (cases "match_groups re_function_definition line")
  case None
  then show ?thesis by (simp add: functionAt_def)
next
  case (Some caps)
  assume n: "definedAt line = None"
  have "\<not> (\<exists>a b c. caps = [a, b, c])"
  proof
    assume "\<exists>a b c. caps = [a, b, c]"
    then obtain a b c where "caps = [a, b, c]" by auto
    with Some n show False by (simp add: definedAt_def)
  qed
  from triple_other[OF this] Some show ?thesis by (simp add: functionAt_def)
qed

lemma functionAt_definedAt:
  "definedAt line = Some (rt, fn, ps) \<Longrightarrow>
     functionAt line =
       (if fn \<noteq> ''main'' then [(fn, rt @ '' '' @ fn @ ''('' @ trim ps @ '');'')] else [])"
  unfolding definedAt_Some by (simp add: functionAt_def prototypeOf_def)

lemma kept_of_line:
  "map snd (filter (\<lambda>func. \<not> test (re_prototype_of (fst func)) area) (functionAt line)) =
     (if missingAt area line then [prototypeAt line] else [])"
proof (cases "definedAt line")
  case None
  then show ?thesis by (simp add: definedAt_None missingAt_def)
next
  case (Some d)
  obtain rt fn ps where d: "d = (rt, fn, ps)" by (cases d)
  from functionAt_definedAt[OF Some[unfolded d]] Some d show ?thesis
    by (simp add: missingAt_def prototypeAt_def)
qed

lemma kept_of_lines:
  "map snd (filter (\<lambda>func. \<not> test (re_prototype_of (fst func)) area)
                   (concat (map functionAt ls))) =
     map prototypeAt (filter (missingAt area) ls)"
  by (induction ls) (simp_all add: kept_of_line)

lemma missingPrototypes_lines:
  "map snd (missingPrototypes lines L M) =
     map prototypeAt
       (filter (missingAt (join_nl (take (M - (L + 1)) (drop (L + 1) lines)))) (drop (M + 1) lines))"
  unfolding missingPrototypes_def foundFunctions_def slice_def Let_def nth_from
  by (rule kept_of_lines)

lemma isDocument_lines:
  assumes "isDocument e t" "l \<in> set (split_nl t)"
  shows "CHR 0x0D \<notin> set (butlast l)"
proof (cases e)
  case LF
  with assms(1) have "CHR 0x0D \<notin> set t" by simp
  with split_nl_subset[OF assms(2)] show ?thesis by (auto dest: in_set_butlastD)
next
  case CRLF
  let ?ls = "split_nl t"
  have "?ls = butlast ?ls @ [last ?ls]" using split_nl_nonempty[of t] by simp
  then have "set ?ls = set (butlast ?ls) \<union> {last ?ls}"
    by (metis Un_insert_right list.simps(15) set_append sup_bot.right_neutral set_empty2 empty_set)
  with assms(2) consider "l \<in> set (butlast ?ls)" | "l = last ?ls" by auto
  then show ?thesis
  proof cases
    case 1
    with assms(1) CRLF show ?thesis by simp
  next
    case 2
    with assms(1) CRLF show ?thesis by (auto dest: in_set_butlastD)
  qed
qed

lemma prototypeAt_plain:
  assumes m: "missingAt area line"
    and cr: "CHR 0x0D \<notin> set (butlast line)"
    and lf: "CHR 0x0A \<notin> set line"
  shows "endsWith (prototypeAt line) '';'' \<and> CHR 0x0A \<notin> set (prototypeAt line) \<and>
         CHR 0x0D \<notin> set (prototypeAt line)"
proof -
  from m obtain rt fn ps where d: "definedAt line = Some (rt, fn, ps)"
    by (cases "definedAt line") (auto simp: missingAt_def)
  then have mg: "match_groups re_function_definition line = Some [rt, fn, ps]"
    unfolding definedAt_Some .
  from function_definition_plain[OF mg cr]
  have c: "CHR 0x0D \<notin> set rt" "CHR 0x0D \<notin> set fn" "CHR 0x0D \<notin> set ps" by auto
  from match_groups_sound[OF mg] lf
  have n: "CHR 0x0A \<notin> set rt" "CHR 0x0A \<notin> set fn" "CHR 0x0A \<notin> set ps" by auto
  from c(3) n(3) trim_subset[of ps]
  have t: "CHR 0x0D \<notin> set (trim ps)" "CHR 0x0A \<notin> set (trim ps)" by auto
  have p: "prototypeAt line = (rt @ '' '' @ fn @ ''('' @ trim ps @ '')'') @ '';''"
    using d by (simp add: prototypeAt_def)
  have "endsWith (prototypeAt line) '';''" unfolding p by (rule endsWith_append)
  moreover have "CHR 0x0A \<notin> set (prototypeAt line)" "CHR 0x0D \<notin> set (prototypeAt line)"
    unfolding p using c n t by simp_all
  ultimately show ?thesis by simp
qed

text \<open>
  C3, as the code has it.  Take a document with a last include line \<open>L\<close> (no line after
  it is an include line) and a first line \<open>M\<close> after it that opens \<open>main\<close>.  The prototype
  area is the text of the lines between the two.  Every line after \<open>M\<close> that opens the
  definition of a function other than \<open>main\<close> of which the area holds no prototype gives
  one prototype; \<open>ds\<close> lists them all, in the order of these lines in the document.  When
  there is one at least and the pass runs, it issues one edit at column 0 of the line
  after the last include line: a line feed and then every prototype of \<open>ds\<close>, in that
  order, each followed by a line feed.  In the document afterwards the last include line
  is followed by an empty line, then by one line per prototype, each ending in \<open>;\<close>, and
  then by the lines that followed the include line before: nothing is put after the
  block.  The new lines end as the lines of the document do.
\<close>

theorem missing_prototypes_inserted:
  assumes lines: "lines = split_nl documentText"
    and doc: "isDocument eol documentText"
    and L: "L < length lines" "isIncludeLine (lines ! L)"
           "\<forall>l\<in>set (drop (L + 1) lines). \<not> isIncludeLine l"
    and M: "L < M" "M < length lines" "test re_main (lines ! M)"
           "\<forall>l\<in>set (take (M - (L + 1)) (drop (L + 1) lines)). \<not> test re_main l"
    and area: "area = join_nl (take (M - (L + 1)) (drop (L + 1) lines))"
    and ds: "ds = map prototypeAt (filter (missingAt area) (drop (M + 1) lines))"
    and ne: "ds \<noteq> []"
  shows "autoGeneratePrototypes False True documentText =
           Some \<lparr>atLine = L + 1, atCol = 0,
                 insertText = CHR 0x0A # concat (map (\<lambda>d. d @ [CHR 0x0A]) ds)\<rparr> \<and>
         split_nl (applyEdit eol documentText
             \<lparr>atLine = L + 1, atCol = 0,
              insertText = CHR 0x0A # concat (map (\<lambda>d. d @ [CHR 0x0A]) ds)\<rparr>) =
           take (L + 1) lines @ [lineEnd eol] @ map (\<lambda>d. d @ lineEnd eol) ds @
           drop (L + 1) lines \<and>
         (\<forall>d\<in>set ds. endsWith d '';'' \<and> CHR 0x0A \<notin> set d \<and> CHR 0x0D \<notin> set d)"
proof -
  let ?missing = "missingPrototypes lines L M"
  let ?t = "CHR 0x0A # concat (map (\<lambda>d. d @ [CHR 0x0A]) ds)"
  have last_inc: "lastIncludeLine lines = Some L" by (rule lastIncludeLine_last[OF L])
  have main: "mainLine lines (L + 1) = Some M"
    using M by (intro mainLine_first) simp_all
  have snd_missing: "map snd ?missing = ds"
    unfolding ds area by (rule missingPrototypes_lines)
  with ne have missing: "?missing \<noteq> []" by auto
  then have found: "foundFunctions lines (M + 1) \<noteq> []"
    unfolding missingPrototypes_def Let_def by auto
  have itext: "CHR 0x0A # join_nl (map snd ?missing) @ [CHR 0x0A] = ?t"
    unfolding snd_missing using ne by (simp add: join_nl_terminated)
  have run: "autoGeneratePrototypes False True documentText =
      Some \<lparr>atLine = L + 1, atCol = 0, insertText = ?t\<rparr>"
    unfolding autoGeneratePrototypes_def lines[symmetric]
    using last_inc main found missing itext by (simp add: Let_def)
  have shape: "endsWith d '';'' \<and> CHR 0x0A \<notin> set d \<and> CHR 0x0D \<notin> set d" if d: "d \<in> set ds" for d
  proof -
    from d obtain l where l: "l \<in> set (drop (M + 1) lines)" "missingAt area l" "d = prototypeAt l"
      unfolding ds by auto
    from l(1) have inl: "l \<in> set (split_nl documentText)" unfolding lines by (rule in_set_dropD)
    from prototypeAt_plain[OF l(2) isDocument_lines[OF doc inl] split_nl_free[OF inl]] l(3)
    show ?thesis by simp
  qed
  have plain: "\<forall>p\<in>set ([] # ds). CHR 0x0D \<notin> set p \<and> CHR 0x0A \<notin> set p" using shape by auto
  have t: "?t = concat (map (\<lambda>p. p @ [CHR 0x0A]) ([] # ds))" by simp
  from M(1,2) have "L + 1 < length (split_nl documentText)" unfolding lines by simp
  from applyEdit_lines[OF this plain, of eol]
  have res: "split_nl (applyEdit eol documentText \<lparr>atLine = L + 1, atCol = 0, insertText = ?t\<rparr>) =
      take (L + 1) lines @ [lineEnd eol] @ map (\<lambda>d. d @ lineEnd eol) ds @ drop (L + 1) lines"
    unfolding t lines by simp
  from run res shape show ?thesis by simp
qed

text \<open>The theorem at a document without an include, and at one without \<open>main\<close>.\<close>

theorem autoGeneratePrototypes_aborts_witness:
  "autoGeneratePrototypes False True
     ''int main() {\<newline>  return 0;\<newline>}\<newline>int f() {\<newline>}'' = None \<and>
   autoGeneratePrototypes False True
     ''#include <stdio.h>\<newline>int helper() {\<newline>}'' = None"
proof -
  let ?a = "''int main() {\<newline>  return 0;\<newline>}\<newline>int f() {\<newline>}''"
  let ?la = "[''int main() {'', ''  return 0;'', ''}'', ''int f() {'', ''}'']"
  let ?b = "''#include <stdio.h>\<newline>int helper() {\<newline>}''"
  let ?lb = "[''#include <stdio.h>'', ''int helper() {'', ''}'']"
  have la: "?la = split_nl ?a" by code_simp
  have "\<forall>l\<in>set ?la. \<not> isIncludeLine l" by code_simp
  then have a: "autoGeneratePrototypes False True ?a = None"
    by (intro autoGeneratePrototypes_aborts[OF la]) simp
  have lb: "?lb = split_nl ?b" by code_simp
  have "\<forall>l\<in>set ?lb. \<not> test re_main l" by code_simp
  then have "\<forall>j<length ?lb. \<not> test re_main (?lb ! j)"
    unfolding all_set_conv_all_nth by simp
  then have b: "autoGeneratePrototypes False True ?b = None"
    by (intro autoGeneratePrototypes_aborts[OF lb]) simp
  from a b show ?thesis by simp
qed

text \<open>
  The theorem at a document that defines three functions after \<open>main\<close>, the second of
  them declared before \<open>main\<close>, and at a document whose lines end in a carriage return
  and a line feed.
\<close>

theorem missing_prototypes_inserted_witness:
  "autoGeneratePrototypes False True
     ''#include <stdio.h>\<newline>int sub(int a, int b);\<newline>int main() {\<newline>  return 0;\<newline>}\<newline>int add(int a,int b){ return a+b; }\<newline>int sub(int a, int b) {\<newline>  return a-b;\<newline>}\<newline>void show( void ) {\<newline>}'' =
     Some \<lparr>atLine = 1, atCol = 0,
           insertText = ''\<newline>int add(int a,int b);\<newline>void show(void);\<newline>''\<rparr> \<and>
   split_nl (applyEdit LF
     ''#include <stdio.h>\<newline>int sub(int a, int b);\<newline>int main() {\<newline>  return 0;\<newline>}\<newline>int add(int a,int b){ return a+b; }\<newline>int sub(int a, int b) {\<newline>  return a-b;\<newline>}\<newline>void show( void ) {\<newline>}''
     \<lparr>atLine = 1, atCol = 0,
      insertText = ''\<newline>int add(int a,int b);\<newline>void show(void);\<newline>''\<rparr>) =
     [''#include <stdio.h>'', [], ''int add(int a,int b);'', ''void show(void);'',
      ''int sub(int a, int b);'', ''int main() {'', ''  return 0;'', ''}'',
      ''int add(int a,int b){ return a+b; }'', ''int sub(int a, int b) {'', ''  return a-b;'',
      ''}'', ''void show( void ) {'', ''}''] \<and>
   split_nl (applyEdit CRLF
     (''#include <stdio.h>'' @ [CHR 0x0D, CHR 0x0A] @ ''int main() {'' @ [CHR 0x0D, CHR 0x0A] @
      ''}'' @ [CHR 0x0D, CHR 0x0A] @ ''int add(int a,int b){ return a+b; }'')
     \<lparr>atLine = 1, atCol = 0, insertText = ''\<newline>int add(int a,int b);\<newline>''\<rparr>) =
     [''#include <stdio.h>'' @ [CHR 0x0D], [CHR 0x0D], ''int add(int a,int b);'' @ [CHR 0x0D],
      ''int main() {'' @ [CHR 0x0D], ''}'' @ [CHR 0x0D], ''int add(int a,int b){ return a+b; }'']"
proof -
  let ?d = "''#include <stdio.h>\<newline>int sub(int a, int b);\<newline>int main() {\<newline>  return 0;\<newline>}\<newline>int add(int a,int b){ return a+b; }\<newline>int sub(int a, int b) {\<newline>  return a-b;\<newline>}\<newline>void show( void ) {\<newline>}''"
  let ?l = "[''#include <stdio.h>'', ''int sub(int a, int b);'', ''int main() {'', ''  return 0;'',
             ''}'', ''int add(int a,int b){ return a+b; }'', ''int sub(int a, int b) {'',
             ''  return a-b;'', ''}'', ''void show( void ) {'', ''}'']"
  let ?ds = "[''int add(int a,int b);'', ''void show(void);'']"
  have l: "?l = split_nl ?d" by code_simp
  have doc: "isDocument LF ?d" by code_simp
  have L: "0 < length ?l" "isIncludeLine (?l ! 0)" "\<forall>l\<in>set (drop (0 + 1) ?l). \<not> isIncludeLine l"
    by code_simp+
  have M: "0 < (2::nat)" "2 < length ?l" "test re_main (?l ! 2)"
    "\<forall>l\<in>set (take (2 - (0 + 1)) (drop (0 + 1) ?l)). \<not> test re_main l"
    by code_simp+
  have ds: "?ds = map prototypeAt
      (filter (missingAt (join_nl (take (2 - (0 + 1)) (drop (0 + 1) ?l)))) (drop (2 + 1) ?l))"
    by code_simp
  have ne: "?ds \<noteq> []" by simp
  note a = missing_prototypes_inserted[OF l doc L M refl ds ne]
  let ?d' = "''#include <stdio.h>'' @ [CHR 0x0D, CHR 0x0A] @ ''int main() {'' @ [CHR 0x0D, CHR 0x0A] @
      ''}'' @ [CHR 0x0D, CHR 0x0A] @ ''int add(int a,int b){ return a+b; }''"
  let ?l' = "[''#include <stdio.h>'' @ [CHR 0x0D], ''int main() {'' @ [CHR 0x0D], ''}'' @ [CHR 0x0D],
      ''int add(int a,int b){ return a+b; }'']"
  let ?ds' = "[''int add(int a,int b);'']"
  have l': "?l' = split_nl ?d'" by code_simp
  have doc': "isDocument CRLF ?d'" by code_simp
  have L': "0 < length ?l'" "isIncludeLine (?l' ! 0)"
    "\<forall>l\<in>set (drop (0 + 1) ?l'). \<not> isIncludeLine l"
    by code_simp+
  have M': "0 < (1::nat)" "1 < length ?l'" "test re_main (?l' ! 1)"
    "\<forall>l\<in>set (take (1 - (0 + 1)) (drop (0 + 1) ?l')). \<not> test re_main l"
    by code_simp+
  have ds': "?ds' = map prototypeAt
      (filter (missingAt (join_nl (take (1 - (0 + 1)) (drop (0 + 1) ?l')))) (drop (1 + 1) ?l'))"
    by code_simp
  have ne': "?ds' \<noteq> []" by simp
  note b = missing_prototypes_inserted[OF l' doc' L' M' refl ds' ne']
  from a b show ?thesis by (simp add: lineEnd_def)
qed

text \<open>
  C3 as stated fails: the text inserted ends with the line feed that closes the last
  prototype, so the line after the block is the old line after the include, here the
  header of \<open>main\<close>, and not a blank line.
\<close>

theorem prototypes_not_followed_by_blank:
  "autoGeneratePrototypes False True
     ''#include <stdio.h>\<newline>int main() {\<newline>}\<newline>int add(int a,int b){ return a+b; }'' =
     Some \<lparr>atLine = 1, atCol = 0, insertText = ''\<newline>int add(int a,int b);\<newline>''\<rparr> \<and>
   split_nl (applyEdit LF
     ''#include <stdio.h>\<newline>int main() {\<newline>}\<newline>int add(int a,int b){ return a+b; }''
     \<lparr>atLine = 1, atCol = 0, insertText = ''\<newline>int add(int a,int b);\<newline>''\<rparr>) =
     [''#include <stdio.h>'', [], ''int add(int a,int b);'', ''int main() {'', ''}'',
      ''int add(int a,int b){ return a+b; }'']"
  by code_simp

section \<open>Header inference: the edit and the second run\<close>

lemma set_add_set: "set (set_add xs x) = insert x (set xs)"
  by (auto simp: set_add_def)

lemma set_add_distinct: "distinct xs \<Longrightarrow> distinct (set_add xs x)"
  by (auto simp: set_add_def)

lemma catalog_headers_plain:
  "\<forall>(f, h)\<in>set FUNCTION_TO_HEADER. h \<noteq> [] \<and> CHR 0x0A \<notin> set h \<and> CHR 0x0D \<notin> set h"
  by (simp add: FUNCTION_TO_HEADER_def)

lemma inherited_texts_plain:
  "\<forall>(f, t)\<in>set OBJECT_PROTOTYPE. CHR 0x0A \<notin> set t \<and> CHR 0x0D \<notin> set t"
  by (simp add: OBJECT_PROTOTYPE_def)

lemma headerOf_plain:
  assumes "headerOf fn = Some h"
  shows "truthy h \<and> CHR 0x0A \<notin> set (toText h) \<and> CHR 0x0D \<notin> set (toText h)"
proof (cases "map_of FUNCTION_TO_HEADER fn")
  case None
  with assms obtain t where t: "map_of OBJECT_PROTOTYPE fn = Some t" "h = Inherited t"
    by (auto simp: headerOf_def)
  from map_of_SomeD[OF t(1)] inherited_texts_plain
  have "CHR 0x0A \<notin> set t \<and> CHR 0x0D \<notin> set t" by auto
  with t(2) show ?thesis by simp
next
  case (Some s)
  with assms have h: "h = Str s" by (simp add: headerOf_def)
  from map_of_SomeD[OF Some] catalog_headers_plain
  have "s \<noteq> [] \<and> CHR 0x0A \<notin> set s \<and> CHR 0x0D \<notin> set s" by auto
  with h show ?thesis by simp
qed

lemma requireHeader_set:
  "set (requireHeader inc req fn) =
     set req \<union> {h. headerOf fn = Some h \<and> \<not> hasHeader inc h}"
  using headerOf_plain[of fn]
  by (auto simp: requireHeader_def set_add_set split: option.splits)

lemma requireHeader_distinct: "distinct req \<Longrightarrow> distinct (requireHeader inc req fn)"
  by (auto simp: requireHeader_def set_add_distinct split: option.splits)

lemma line_headers_set:
  "set (foldl (requireHeader inc) req names) =
     set req \<union> {h. \<exists>fn\<in>set names. headerOf fn = Some h \<and> \<not> hasHeader inc h}"
  by (induction names arbitrary: req) (auto simp: requireHeader_set)

lemma line_headers_distinct:
  "distinct req \<Longrightarrow> distinct (foldl (requireHeader inc) req names)"
  by (induction names arbitrary: req) (auto simp: requireHeader_distinct)

lemma all_headers_set:
  "set (foldl (\<lambda>required line. foldl (requireHeader inc) required (calledNames line)) req lines) =
     set req \<union> {h. \<exists>line\<in>set lines. \<exists>fn\<in>set (calledNames line).
                       headerOf fn = Some h \<and> \<not> hasHeader inc h}"
  by (induction lines arbitrary: req) (auto simp: line_headers_set)

lemma all_headers_distinct:
  "distinct req \<Longrightarrow>
   distinct (foldl (\<lambda>required line. foldl (requireHeader inc) required (calledNames line)) req lines)"
  by (induction lines arbitrary: req) (auto simp: line_headers_distinct)

lemma requiredHeaders_set:
  "set (requiredHeaders lines) =
     {h. \<exists>line\<in>set lines. \<exists>fn\<in>set (calledNames line).
           headerOf fn = Some h \<and> \<not> hasHeader (includedHeaders lines) h}"
  unfolding requiredHeaders_def Let_def all_headers_set by simp

lemma requiredHeaders_distinct: "distinct (requiredHeaders lines)"
  unfolding requiredHeaders_def Let_def by (rule all_headers_distinct) simp

lemma insertionLine_bounds:
  "insertionLine lines \<le> length lines \<and>
   (\<forall>i<length lines. isIncludeLine (lines ! i) \<longrightarrow> i < insertionLine lines) \<and>
   (insertionLine lines = 0 \<or> isIncludeLine (lines ! (insertionLine lines - 1)))"
proof (cases "lastIncludeLine lines")
  case None
  then show ?thesis using lastIncludeLine_None[of lines] by (simp add: insertionLine_last)
next
  case (Some L)
  then have L: "L < length lines" "isIncludeLine (lines ! L)"
    "\<forall>k. L < k \<and> k < length lines \<longrightarrow> \<not> isIncludeLine (lines ! k)"
    unfolding lastIncludeLine_Some by auto
  have "i < Suc L" if "i < length lines" "isIncludeLine (lines ! i)" for i
    using that L(3) by (cases "L < i") auto
  with Some L(1,2) show ?thesis by (simp add: insertionLine_last)
qed

lemma header_edit_facts:
  assumes lines: "lines = split_nl documentText"
    and called: "\<exists>line\<in>set lines. \<exists>fn\<in>set (calledNames line). \<exists>h.
                   headerOf fn = Some h \<and> \<not> hasHeader (includedHeaders lines) h"
    and hs: "hs = sort_key toText (requiredHeaders lines)"
    and e: "e = \<lparr>atLine = insertionLine lines, atCol = 0,
                 insertText = concat (map (\<lambda>h. ''#include <'' @ toText h @ ''>'' @ [CHR 0x0A]) hs)\<rparr>"
  shows "autoAddRequiredHeaders True documentText = Some e \<and>
         hs \<noteq> [] \<and> distinct hs \<and> sorted (map toText hs) \<and>
         set hs = {h. \<exists>line\<in>set lines. \<exists>fn\<in>set (calledNames line).
                        headerOf fn = Some h \<and> \<not> hasHeader (includedHeaders lines) h} \<and>
         insertionLine lines \<le> length lines \<and>
         (\<forall>i<length lines. isIncludeLine (lines ! i) \<longrightarrow> i < insertionLine lines) \<and>
         (insertionLine lines = 0 \<or> isIncludeLine (lines ! (insertionLine lines - 1))) \<and>
         (insertionLine lines < length lines \<longrightarrow>
            split_nl (applyEdit eol documentText e) =
              take (insertionLine lines) lines @
              map (\<lambda>h. ''#include <'' @ toText h @ ''>'' @ lineEnd eol) hs @
              drop (insertionLine lines) lines)"
proof -
  have set_hs: "set hs = {h. \<exists>line\<in>set lines. \<exists>fn\<in>set (calledNames line).
                        headerOf fn = Some h \<and> \<not> hasHeader (includedHeaders lines) h}"
    unfolding hs by (simp add: requiredHeaders_set)
  with called have "set hs \<noteq> {}" by auto
  then have ne: "hs \<noteq> []" by auto
  then have req: "requiredHeaders lines \<noteq> []" unfolding hs by auto
  have dist: "distinct hs" unfolding hs by (simp add: requiredHeaders_distinct)
  have sorted: "sorted (map toText hs)" unfolding hs by (rule sorted_sort_key)
  from ne have t: "join_nl (map headerLine hs) @ [CHR 0x0A] =
      concat (map (\<lambda>p. p @ [CHR 0x0A]) (map headerLine hs))"
    by (simp add: join_nl_terminated)
  also have "\<dots> = concat (map (\<lambda>h. ''#include <'' @ toText h @ ''>'' @ [CHR 0x0A]) hs)"
    by (simp add: comp_def headerLine_def)
  finally have itext: "join_nl (map headerLine hs) @ [CHR 0x0A] = insertText e" unfolding e by simp
  have run: "autoAddRequiredHeaders True documentText = Some e"
    using req itext unfolding autoAddRequiredHeaders_def lines[symmetric] Let_def hs[symmetric] e
    by simp
  have plain: "\<forall>x\<in>set (map headerLine hs). CHR 0x0D \<notin> set x \<and> CHR 0x0A \<notin> set x"
  proof
    fix x assume "x \<in> set (map headerLine hs)"
    then obtain h where h: "h \<in> set hs" "x = headerLine h" by auto
    from h(1) set_hs obtain fn where "headerOf fn = Some h" by auto
    from headerOf_plain[OF this] h(2) show "CHR 0x0D \<notin> set x \<and> CHR 0x0A \<notin> set x"
      by (simp add: headerLine_def)
  qed
  have res: "split_nl (applyEdit eol documentText e) =
      take (insertionLine lines) lines @ map (\<lambda>h. headerLine h @ lineEnd eol) hs @
      drop (insertionLine lines) lines"
    if "insertionLine lines < length lines"
  proof -
    from that have l: "insertionLine lines < length (split_nl documentText)" unfolding lines .
    have "e = \<lparr>atLine = insertionLine lines, atCol = 0,
               insertText = concat (map (\<lambda>p. p @ [CHR 0x0A]) (map headerLine hs))\<rparr>"
      unfolding e by (simp add: comp_def headerLine_def)
    with applyEdit_lines[OF l plain, of eol] show ?thesis unfolding lines by (simp add: comp_def)
  qed
  have hl: "map (\<lambda>h. headerLine h @ lineEnd eol) hs =
            map (\<lambda>h. ''#include <'' @ toText h @ ''>'' @ lineEnd eol) hs"
    by (simp add: headerLine_def)
  from run ne dist sorted set_hs insertionLine_bounds[of lines] res
  show ?thesis unfolding hl by simp
qed

text \<open>
  C1, as the code has it.  When a call in the document (outside a trailing \<open>//\<close> comment)
  names a function whose header is not yet included, one edit is issued at column 0 of
  the insertion line.  Its text is one line \<open>#include <H>\<close> per missing header, each
  closed by a line feed and nothing after the last; the headers are distinct and sorted as
  strings, and they are exactly the headers of the functions called that are not included.
  The insertion line is one past the last line whose trimmed text starts with
  \<open>#include\<close>, and 0 when there is none.  When the insertion line is a line of the
  document, the document afterwards has the include lines as lines of their own at that
  index, ending as the lines of the document do, and directly followed by the lines that
  were there before.
\<close>

theorem missing_headers_inserted:
  assumes lines: "lines = split_nl documentText"
    and called: "\<exists>line\<in>set lines. \<exists>fn\<in>set (calledNames line). \<exists>h.
                   headerOf fn = Some h \<and> \<not> hasHeader (includedHeaders lines) h"
    and hs: "hs = sort_key toText (requiredHeaders lines)"
    and e: "e = \<lparr>atLine = insertionLine lines, atCol = 0,
                 insertText = concat (map (\<lambda>h. ''#include <'' @ toText h @ ''>'' @ [CHR 0x0A]) hs)\<rparr>"
  shows "autoAddRequiredHeaders True documentText = Some e \<and>
         hs \<noteq> [] \<and> distinct hs \<and> sorted (map toText hs) \<and>
         set hs = {h. \<exists>line\<in>set lines. \<exists>fn\<in>set (calledNames line).
                        headerOf fn = Some h \<and> \<not> hasHeader (includedHeaders lines) h} \<and>
         insertionLine lines \<le> length lines \<and>
         (\<forall>i<length lines. isIncludeLine (lines ! i) \<longrightarrow> i < insertionLine lines) \<and>
         (insertionLine lines = 0 \<or> isIncludeLine (lines ! (insertionLine lines - 1))) \<and>
         (insertionLine lines < length lines \<longrightarrow>
            split_nl (applyEdit eol documentText e) =
              take (insertionLine lines) lines @
              map (\<lambda>h. ''#include <'' @ toText h @ ''>'' @ lineEnd eol) hs @
              drop (insertionLine lines) lines)"
  using assms by (rule header_edit_facts)

text \<open>
  The theorem at a document that calls three functions and includes nothing, with either
  end of line.
\<close>

theorem missing_headers_inserted_witness:
  "autoAddRequiredHeaders True ''int main(){ strlen(s); printf(s); malloc(1); }'' =
     Some \<lparr>atLine = 0, atCol = 0,
           insertText = ''#include <stdio.h>\<newline>#include <stdlib.h>\<newline>#include <string.h>\<newline>''\<rparr> \<and>
   split_nl (applyEdit LF ''int main(){ strlen(s); printf(s); malloc(1); }''
     \<lparr>atLine = 0, atCol = 0,
      insertText = ''#include <stdio.h>\<newline>#include <stdlib.h>\<newline>#include <string.h>\<newline>''\<rparr>) =
     [''#include <stdio.h>'', ''#include <stdlib.h>'', ''#include <string.h>'',
      ''int main(){ strlen(s); printf(s); malloc(1); }''] \<and>
   split_nl (applyEdit CRLF ''int main(){ strlen(s); printf(s); malloc(1); }''
     \<lparr>atLine = 0, atCol = 0,
      insertText = ''#include <stdio.h>\<newline>#include <stdlib.h>\<newline>#include <string.h>\<newline>''\<rparr>) =
     [''#include <stdio.h>'' @ [CHR 0x0D], ''#include <stdlib.h>'' @ [CHR 0x0D],
      ''#include <string.h>'' @ [CHR 0x0D], ''int main(){ strlen(s); printf(s); malloc(1); }'']"
proof -
  let ?d = "''int main(){ strlen(s); printf(s); malloc(1); }''"
  let ?hs = "[Str ''stdio.h'', Str ''stdlib.h'', Str ''string.h'']"
  have l: "[?d] = split_nl ?d" by code_simp
  have c: "''strlen'' \<in> set (calledNames ?d)" by code_simp
  have h: "headerOf ''strlen'' = Some (Str ''string.h'')" by code_simp
  have n: "\<not> hasHeader (includedHeaders [?d]) (Str ''string.h'')" by code_simp
  have called: "\<exists>line\<in>set [?d]. \<exists>fn\<in>set (calledNames line). \<exists>h.
                   headerOf fn = Some h \<and> \<not> hasHeader (includedHeaders [?d]) h"
    using c h n
    by (intro bexI[of _ ?d] bexI[of _ "''strlen''"] exI[of _ "Str ''string.h''"]) simp_all
  have hs: "?hs = sort_key toText (requiredHeaders [?d])" by code_simp
  have i: "insertionLine [?d] = 0" by code_simp
  from missing_headers_inserted[OF l called hs refl, of LF]
       missing_headers_inserted[OF l called hs refl, of CRLF]
  show ?thesis unfolding i by (simp add: lineEnd_def)
qed

text \<open>
  C1 as stated fails: no blank line follows the block.  In the example of the
  specification the line after the new include is the line of \<open>main\<close>.
\<close>

theorem headers_not_followed_by_blank:
  "autoAddRequiredHeaders True
     ''#include <stdio.h>\<newline>int main(){ printf(x); strlen(y); return 0; }'' =
     Some \<lparr>atLine = 1, atCol = 0, insertText = ''#include <string.h>\<newline>''\<rparr> \<and>
   split_nl (applyEdit LF
     ''#include <stdio.h>\<newline>int main(){ printf(x); strlen(y); return 0; }''
     \<lparr>atLine = 1, atCol = 0, insertText = ''#include <string.h>\<newline>''\<rparr>) =
     [''#include <stdio.h>'', ''#include <string.h>'',
      ''int main(){ printf(x); strlen(y); return 0; }'']"
  by code_simp

text \<open>
  C8.  A document that calls a function named as a member of \<open>Object.prototype\<close>, here
  \<open>toString\<close>: the lookup in the table answers with the inherited function, which no
  set of included headers contains.  The first run inserts an include line made from it,
  and the run on the resulting document inserts the same line once more, whichever end
  of line the document has.
\<close>

theorem header_inference_runs_again:
  "autoAddRequiredHeaders True ''void f(){ toString(1); }'' =
     Some \<lparr>atLine = 0, atCol = 0,
           insertText = ''#include <function toString() { [native code] }>\<newline>''\<rparr> \<and>
   applyEdit LF ''void f(){ toString(1); }''
     \<lparr>atLine = 0, atCol = 0,
      insertText = ''#include <function toString() { [native code] }>\<newline>''\<rparr> =
     ''#include <function toString() { [native code] }>\<newline>void f(){ toString(1); }'' \<and>
   autoAddRequiredHeaders True
     ''#include <function toString() { [native code] }>\<newline>void f(){ toString(1); }'' =
     Some \<lparr>atLine = 1, atCol = 0,
           insertText = ''#include <function toString() { [native code] }>\<newline>''\<rparr> \<and>
   applyEdit CRLF ''void f(){ toString(1); }''
     \<lparr>atLine = 0, atCol = 0,
      insertText = ''#include <function toString() { [native code] }>\<newline>''\<rparr> =
     ''#include <function toString() { [native code] }>'' @ [CHR 0x0D, CHR 0x0A] @
     ''void f(){ toString(1); }'' \<and>
   autoAddRequiredHeaders True
     (''#include <function toString() { [native code] }>'' @ [CHR 0x0D, CHR 0x0A] @
      ''void f(){ toString(1); }'') =
     Some \<lparr>atLine = 1, atCol = 0,
           insertText = ''#include <function toString() { [native code] }>\<newline>''\<rparr>"
  by code_simp

text \<open>
  A second way to the same end: when the last line of the document is an include line,
  the insertion line is past the last line, the editor puts the text at the end of that
  line, and the include that results is not recognised by the next run.
\<close>

lemma header_inference_past_the_end:
  "autoAddRequiredHeaders True ''/* printf(x) */\<newline>#include <stdlib.h>'' =
     Some \<lparr>atLine = 2, atCol = 0, insertText = ''#include <stdio.h>\<newline>''\<rparr> \<and>
   applyEdit LF ''/* printf(x) */\<newline>#include <stdlib.h>''
     \<lparr>atLine = 2, atCol = 0, insertText = ''#include <stdio.h>\<newline>''\<rparr> =
     ''/* printf(x) */\<newline>#include <stdlib.h>#include <stdio.h>\<newline>'' \<and>
   autoAddRequiredHeaders True
     ''/* printf(x) */\<newline>#include <stdlib.h>#include <stdio.h>\<newline>'' =
     Some \<lparr>atLine = 2, atCol = 0, insertText = ''#include <stdio.h>\<newline>''\<rparr>"
  by code_simp

section \<open>What a pattern accepts\<close>

text \<open>
  Whether a pattern matches at a position, read off the pattern: a literal needs its
  characters, a boundary compares the characters on its two sides, and white space before
  something that does not start with white space is skipped whole.
\<close>

lemma lastChar_Cons: "lastChar p (c # xs) = lastChar (Some c) xs"
  by (simp add: lastChar_def)

lemma lastChar_append: "lastChar p (xs @ ys) = lastChar (lastChar p xs) ys"
  by (simp add: lastChar_def)

lemma matches_lit:
  "matches (lit w) p s caps =
     (if prefix w s then [(lastChar p w, drop (length w) s, caps)] else [])"
proof (induction w arbitrary: p s)
  case Nil
  then show ?case by (simp add: lit_def lastChar_def)
next
  case (Cons c w)
  have unfold: "lit (c # w) = Seq (Class [One c]) (lit w)" by (simp add: lit_def)
  show ?case
  proof (cases s)
    case Nil
    then show ?thesis by (simp add: unfold)
  next
    case (Cons d t)
    then show ?thesis by (simp add: unfold Cons.IH lastChar_Cons)
  qed
qed

lemma accepts_Seq:
  "matches (Seq a b) p s caps \<noteq> [] \<longleftrightarrow>
     (\<exists>p1 s1 c1. (p1, s1, c1) \<in> set (matches a p s caps) \<and> matches b p1 s1 c1 \<noteq> [])"
  by force

lemma accepts_lit_then:
  "matches (Seq (lit w) b) p s caps \<noteq> [] \<longleftrightarrow>
     prefix w s \<and> matches b (lastChar p w) (drop (length w) s) caps \<noteq> []"
  by (simp add: matches_lit)

lemma accepts_lit: "matches (lit w) p s caps \<noteq> [] \<longleftrightarrow> prefix w s"
  by (simp add: matches_lit)

lemma accepts_WordB_then:
  "matches (Seq WordB b) p s caps \<noteq> [] \<longleftrightarrow>
     wordBefore p \<noteq> wordAfter s \<and> matches b p s caps \<noteq> []"
  by simp

lemma accepts_chr: "matches (chr c) p s caps \<noteq> [] \<longleftrightarrow> prefix [c] s"
  by (cases s) (auto simp: chr_def)

lemma spaces_set:
  "set (matches ws_star p s caps) =
     {(lastChar p (take k s), drop k s, caps) | k. k \<le> length (takeWhile isSpace s)}"
proof (induction s arbitrary: p)
  case Nil
  show ?case unfolding ws_star_def by (subst matches.simps(7)) (simp add: lastChar_def)
next
  case (Cons c t)
  show ?case
  proof (cases "isSpace c")
    case True
    have "set (matches ws_star p (c # t) caps) =
        set (matches ws_star (Some c) t caps) \<union> {(p, c # t, caps)}"
      unfolding ws_star_def using True by (subst matches.simps(7)) simp
    also have "\<dots> = {(lastChar (Some c) (take k t), drop k t, caps) | k.
                      k \<le> length (takeWhile isSpace t)} \<union> {(p, c # t, caps)}"
      by (simp only: Cons.IH)
    also have "\<dots> = {(lastChar p (take k (c # t)), drop k (c # t), caps) | k.
                      k \<le> length (takeWhile isSpace (c # t))}"
      (is "?A \<union> ?B = ?C")
    proof (intro equalityI subsetI)
      fix x assume "x \<in> ?A \<union> ?B"
      then consider k where "x = (lastChar (Some c) (take k t), drop k t, caps)"
          "k \<le> length (takeWhile isSpace t)" | "x = (p, c # t, caps)" by auto
      then show "x \<in> ?C"
      proof cases
        case 1
        then have "x = (lastChar p (take (Suc k) (c # t)), drop (Suc k) (c # t), caps) \<and>
            Suc k \<le> length (takeWhile isSpace (c # t))"
          using True by (simp add: lastChar_Cons)
        then show ?thesis by blast
      next
        case 2
        then have "x = (lastChar p (take 0 (c # t)), drop 0 (c # t), caps) \<and>
            0 \<le> length (takeWhile isSpace (c # t))"
          by (simp add: lastChar_def)
        then show ?thesis by blast
      qed
    next
      fix x assume "x \<in> ?C"
      then obtain k where k: "x = (lastChar p (take k (c # t)), drop k (c # t), caps)"
        "k \<le> length (takeWhile isSpace (c # t))" by auto
      show "x \<in> ?A \<union> ?B"
      proof (cases k)
        case 0
        with k show ?thesis by (simp add: lastChar_def)
      next
        case (Suc j)
        with k True have "x = (lastChar (Some c) (take j t), drop j t, caps) \<and>
            j \<le> length (takeWhile isSpace t)" by (simp add: lastChar_Cons)
        then show ?thesis by blast
      qed
    qed
    finally show ?thesis .
  next
    case False
    have "set (matches ws_star p (c # t) caps) = {(p, c # t, caps)}"
      unfolding ws_star_def using False by (subst matches.simps(7)) simp
    also have "\<dots> = {(lastChar p (take k (c # t)), drop k (c # t), caps) | k.
                      k \<le> length (takeWhile isSpace (c # t))}"
      using False by (auto simp: lastChar_def)
    finally show ?thesis .
  qed
qed

lemma accepts_spaces_then:
  assumes first: "\<And>q t. matches b q t caps \<noteq> [] \<Longrightarrow> t \<noteq> [] \<and> \<not> isSpace (hd t)"
    and ctx: "\<And>q q' t. (matches b q t caps \<noteq> []) = (matches b q' t caps \<noteq> [])"
  shows "matches (Seq ws_star b) p s caps \<noteq> [] \<longleftrightarrow>
           matches b p (dropWhile isSpace s) caps \<noteq> []"
proof
  assume "matches (Seq ws_star b) p s caps \<noteq> []"
  then obtain p1 s1 c1 where m: "(p1, s1, c1) \<in> set (matches ws_star p s caps)"
    "matches b p1 s1 c1 \<noteq> []" unfolding accepts_Seq by auto
  from m(1) obtain k where k: "p1 = lastChar p (take k s)" "s1 = drop k s" "c1 = caps"
    "k \<le> length (takeWhile isSpace s)" unfolding spaces_set by auto
  from first[of p1 s1] m(2) k(3) have ne: "s1 \<noteq> []" "\<not> isSpace (hd s1)" by auto
  have "k = length (takeWhile isSpace s)"
  proof (rule ccontr)
    assume "k \<noteq> length (takeWhile isSpace s)"
    with k(4) have lt: "k < length (takeWhile isSpace s)" by simp
    then have "takeWhile isSpace s ! k \<in> set (takeWhile isSpace s)" by simp
    then have "isSpace (takeWhile isSpace s ! k)" by (rule set_takeWhileD[THEN conjunct2])
    moreover from lt have "takeWhile isSpace s ! k = s ! k" by (rule takeWhile_nth)
    moreover from ne k(2) have "hd s1 = s ! k" by (simp add: hd_drop_conv_nth)
    ultimately show False using ne(2) by simp
  qed
  then have "s1 = dropWhile isSpace s" unfolding k(2) by (simp add: dropWhile_eq_drop)
  with m(2) k(3) ctx[of p1 _ p] show "matches b p (dropWhile isSpace s) caps \<noteq> []" by simp
next
  assume a: "matches b p (dropWhile isSpace s) caps \<noteq> []"
  let ?n = "length (takeWhile isSpace s)"
  have "(lastChar p (take ?n s), drop ?n s, caps) \<in> set (matches ws_star p s caps)"
    unfolding spaces_set by blast
  moreover have "matches b (lastChar p (take ?n s)) (drop ?n s) caps \<noteq> []"
    using a ctx[of "lastChar p (take ?n s)" _ p] by (simp add: dropWhile_eq_drop)
  ultimately show "matches (Seq ws_star b) p s caps \<noteq> []" unfolding accepts_Seq by blast
qed

section \<open>Diagnostic scanner: file opened without a check\<close>

lemma test_occurs:
  assumes "\<And>q suf. matches r q suf [] \<noteq> [] \<longleftrightarrow> prefix w suf \<and> Q q (drop (length w) suf)"
  shows "test r s \<longleftrightarrow> occurs s w Q"
proof
  assume "test r s"
  then obtain pre suf where ps: "s = pre @ suf" "matches r (lastChar None pre) suf [] \<noteq> []"
    unfolding test_iff by auto
  from ps(2) have "prefix w suf" "Q (lastChar None pre) (drop (length w) suf)"
    unfolding assms by auto
  from this(1) obtain post where post: "suf = w @ post" by (auto simp: prefix_def)
  with ps(1) \<open>Q (lastChar None pre) (drop (length w) suf)\<close>
  show "occurs s w Q" unfolding occurs_def by (intro exI[of _ pre] exI[of _ post]) simp
next
  assume "occurs s w Q"
  then obtain pre post where pp: "s = pre @ w @ post" "Q (lastChar None pre) post"
    unfolding occurs_def by auto
  have "matches r (lastChar None pre) (w @ post) [] \<noteq> []" unfolding assms using pp(2) by simp
  with pp(1) show "test r s" by (intro testI[of s pre "w @ post"]) simp_all
qed

lemma test_Alt: "test (Alt a b) s \<longleftrightarrow> test a s \<or> test b s"
  unfolding test_iff by auto

lemma wordAfter_NULL: "prefix ''NULL'' s \<Longrightarrow> wordAfter s"
  by (cases s) (auto simp: wordAfter_def isWordChar_def less_eq_char_def)

lemma wordAfter_if: "prefix ''if'' s \<Longrightarrow> wordAfter s"
  by (cases s) (auto simp: wordAfter_def isWordChar_def less_eq_char_def)

lemma wordAfter_ne: "prefix ''!='' s \<Longrightarrow> \<not> wordAfter s"
  by (cases s) (auto simp: wordAfter_def isWordChar_def less_eq_char_def)

lemma wordBefore_L: "wordBefore (lastChar q ''NULL'')"
  by (simp add: wordBefore_def lastChar_def isWordChar_def less_eq_char_def)

lemma first_of_prefix:
  assumes "prefix (c # w) t" "\<not> isSpace c"
  shows "t \<noteq> [] \<and> \<not> isSpace (hd t)"
  using assms by (cases t) auto

lemma not_space_N: "\<not> isSpace CHR ''N''" and not_space_paren: "\<not> isSpace CHR ''(''"
  by (simp_all add: isSpace_def)

lemma spaces_then_NULL:
  "matches (Seq ws_star (lit ''NULL'')) q t [] \<noteq> [] \<longleftrightarrow> prefix ''NULL'' (dropWhile isSpace t)"
proof -
  have "matches (Seq ws_star (lit ''NULL'')) q t [] \<noteq> [] \<longleftrightarrow>
      matches (lit ''NULL'') q (dropWhile isSpace t) [] \<noteq> []"
    by (rule accepts_spaces_then) (use first_of_prefix not_space_N in \<open>auto simp: accepts_lit\<close>)
  then show ?thesis by (simp only: accepts_lit)
qed

lemma spaces_then_NULL_word:
  "matches (Seq ws_star (Seq (lit ''NULL'') WordB)) q t [] \<noteq> [] \<longleftrightarrow>
     prefix ''NULL'' (dropWhile isSpace t) \<and> \<not> wordAfter (drop 4 (dropWhile isSpace t))"
proof -
  have b: "matches (Seq (lit ''NULL'') WordB) q' u [] \<noteq> [] \<longleftrightarrow>
      prefix ''NULL'' u \<and> \<not> wordAfter (drop 4 u)" for q' u
    unfolding accepts_lit_then using wordBefore_L by (simp add: eval_nat_numeral)
  have "matches (Seq ws_star (Seq (lit ''NULL'') WordB)) q t [] \<noteq> [] \<longleftrightarrow>
      matches (Seq (lit ''NULL'') WordB) q (dropWhile isSpace t) [] \<noteq> []"
  proof (rule accepts_spaces_then)
    fix q' u
    assume "matches (Seq (lit ''NULL'') WordB) q' u [] \<noteq> []"
    then have "prefix ''NULL'' u" unfolding b by simp
    then show "u \<noteq> [] \<and> \<not> isSpace (hd u)" using not_space_N by (rule first_of_prefix)
  next
    fix q' q'' u
    show "(matches (Seq (lit ''NULL'') WordB) q' u [] \<noteq> []) =
          (matches (Seq (lit ''NULL'') WordB) q'' u [] \<noteq> [])"
      unfolding b ..
  qed
  then show ?thesis by (simp only: b)
qed

lemma spaces_then_paren:
  "matches (Seq ws_star (chr CHR ''('')) q t [] \<noteq> [] \<longleftrightarrow> prefix ''('' (dropWhile isSpace t)"
proof -
  have "matches (Seq ws_star (chr CHR ''('')) q t [] \<noteq> [] \<longleftrightarrow>
      matches (chr CHR ''('') q (dropWhile isSpace t) [] \<noteq> []"
    by (rule accepts_spaces_then) (use first_of_prefix not_space_paren in \<open>auto simp: accepts_chr\<close>)
  then show ?thesis by (simp only: accepts_chr)
qed

lemma test_re_NULL:
  "test re_NULL s \<longleftrightarrow> occurs s ''NULL'' (\<lambda>q rest. \<not> wordBefore q \<and> \<not> wordAfter rest)"
proof (rule test_occurs)
  fix q suf
  have "matches re_NULL q suf [] \<noteq> [] \<longleftrightarrow>
      wordBefore q \<noteq> wordAfter suf \<and> prefix ''NULL'' suf \<and> \<not> wordAfter (drop 4 suf)"
    unfolding re_NULL_def seqs.simps accepts_WordB_then accepts_lit_then
    using wordBefore_L by (simp add: eval_nat_numeral)
  then show "matches re_NULL q suf [] \<noteq> [] \<longleftrightarrow>
      prefix ''NULL'' suf \<and> (\<not> wordBefore q \<and> \<not> wordAfter (drop (length ''NULL'') suf))"
    using wordAfter_NULL[of suf] by (auto simp: eval_nat_numeral)
qed

lemma test_re_if:
  "test re_if s \<longleftrightarrow>
     occurs s ''if'' (\<lambda>q rest. \<not> wordBefore q \<and> prefix ''('' (dropWhile isSpace rest))"
proof (rule test_occurs)
  fix q suf
  have "matches re_if q suf [] \<noteq> [] \<longleftrightarrow>
      wordBefore q \<noteq> wordAfter suf \<and> prefix ''if'' suf \<and>
      prefix ''('' (dropWhile isSpace (drop 2 suf))"
    unfolding re_if_def seqs.simps accepts_WordB_then accepts_lit_then spaces_then_paren
    by (simp add: eval_nat_numeral)
  then show "matches re_if q suf [] \<noteq> [] \<longleftrightarrow>
      prefix ''if'' suf \<and>
      (\<not> wordBefore q \<and> prefix ''('' (dropWhile isSpace (drop (length ''if'') suf)))"
    using wordAfter_if[of suf] by (auto simp: eval_nat_numeral)
qed

lemma test_re_perror: "test re_perror s \<longleftrightarrow> occurs s ''perror'' (\<lambda>q rest. True)"
  by (rule test_occurs) (simp add: re_perror_def accepts_lit)

lemma test_re_NULL_compared:
  "test re_NULL_compared s \<longleftrightarrow>
     occurs s ''!='' (\<lambda>q rest. wordBefore q \<and> prefix ''NULL'' (dropWhile isSpace rest)) \<or>
     occurs s ''=='' (\<lambda>q rest. prefix ''NULL'' (dropWhile isSpace rest) \<and>
                               \<not> wordAfter (drop 4 (dropWhile isSpace rest)))"
proof -
  have a: "test (seqs [WordB, lit ''!='', ws_star, lit ''NULL'']) s \<longleftrightarrow>
      occurs s ''!='' (\<lambda>q rest. wordBefore q \<and> prefix ''NULL'' (dropWhile isSpace rest))"
  proof (rule test_occurs)
    fix q suf
    have "matches (seqs [WordB, lit ''!='', ws_star, lit ''NULL'']) q suf [] \<noteq> [] \<longleftrightarrow>
        wordBefore q \<noteq> wordAfter suf \<and> prefix ''!='' suf \<and>
        prefix ''NULL'' (dropWhile isSpace (drop 2 suf))"
      unfolding seqs.simps accepts_WordB_then accepts_lit_then spaces_then_NULL
      by (simp add: eval_nat_numeral)
    then show "matches (seqs [WordB, lit ''!='', ws_star, lit ''NULL'']) q suf [] \<noteq> [] \<longleftrightarrow>
        prefix ''!='' suf \<and>
        (wordBefore q \<and> prefix ''NULL'' (dropWhile isSpace (drop (length ''!='') suf)))"
      using wordAfter_ne[of suf] by (auto simp: eval_nat_numeral)
  qed
  have b: "test (seqs [lit ''=='', ws_star, lit ''NULL'', WordB]) s \<longleftrightarrow>
      occurs s ''=='' (\<lambda>q rest. prefix ''NULL'' (dropWhile isSpace rest) \<and>
                               \<not> wordAfter (drop 4 (dropWhile isSpace rest)))"
  proof (rule test_occurs)
    fix q suf
    show "matches (seqs [lit ''=='', ws_star, lit ''NULL'', WordB]) q suf [] \<noteq> [] \<longleftrightarrow>
        prefix ''=='' suf \<and>
        (prefix ''NULL'' (dropWhile isSpace (drop (length ''=='') suf)) \<and>
         \<not> wordAfter (drop 4 (dropWhile isSpace (drop (length ''=='') suf))))"
      unfolding seqs.simps accepts_lit_then spaces_then_NULL_word
      by (simp add: eval_nat_numeral)
  qed
  show ?thesis unfolding re_NULL_compared_def test_Alt a b ..
qed

lemma next_lines: "slice lines (n + 1) (min (n + 5) (length lines)) = take 4 (drop (n + 1) lines)"
proof -
  have "min (n + 5) (length lines) - (n + 1) = min 4 (length (drop (n + 1) lines))"
    by auto
  then show ?thesis by (simp add: slice_def min_def)
qed

text \<open>
  C6, as the code has it.  Let the check line be the line up to its first \<open>//\<close>, and the
  block the next lines, at most four, joined by line feeds.  The check adds exactly one
  Information diagnostic, from the first \<open>fopen\<close> to the end of the check line, when the
  check line contains \<open>fopen(\<close> and the block has none of: the word \<open>NULL\<close>; \<open>!=\<close> after
  a word character, then white space or none, then \<open>NULL\<close>; \<open>==\<close>, then white space or
  none, then \<open>NULL\<close> at the end of a word; \<open>if\<close> at the start of a word, then white
  space or none, then \<open>(\<close>; the text \<open>perror\<close>.  Otherwise it adds nothing.
\<close>

theorem fopen_diagnostic_iff:
  assumes checkLine: "checkLine = stripLineComment line"
    and block: "block = join_nl (take 4 (drop (n + 1) lines))"
  shows "checkFopenWithoutNullCheck lines line n ds =
     (if str_includes checkLine ''fopen('' \<and>
         \<not> occurs block ''NULL'' (\<lambda>q rest. \<not> wordBefore q \<and> \<not> wordAfter rest) \<and>
         \<not> occurs block ''!='' (\<lambda>q rest. wordBefore q \<and> prefix ''NULL'' (dropWhile isSpace rest)) \<and>
         \<not> occurs block ''=='' (\<lambda>q rest. prefix ''NULL'' (dropWhile isSpace rest) \<and>
                                       \<not> wordAfter (drop 4 (dropWhile isSpace rest))) \<and>
         \<not> occurs block ''if'' (\<lambda>q rest. \<not> wordBefore q \<and> prefix ''('' (dropWhile isSpace rest)) \<and>
         \<not> occurs block ''perror'' (\<lambda>q rest. True)
      then ds @ [\<lparr>startLine = int n, startCol = indexOf checkLine ''fopen'',
                  endLine = int n, endCol = int (length checkLine),
                  message = ''Consider checking if fopen() returned NULL before using the file pointer'',
                  severity = Information\<rparr>]
      else ds)"
  unfolding checkFopenWithoutNullCheck_def Let_def next_lines
    checkLine[symmetric] block[symmetric]
    test_re_NULL test_re_NULL_compared test_re_if test_re_perror fopenMessage_def
  by simp

text \<open>The theorem at a call with a trailing comment, followed by a plain assignment.\<close>

theorem fopen_diagnostic_iff_witness:
  "checkFopenWithoutNullCheck [''FILE *f = fopen(p, m); // open'', ''x = 1;'']
     ''FILE *f = fopen(p, m); // open'' 0 [] =
     [\<lparr>startLine = 0, startCol = 10, endLine = 0, endCol = 23,
       message = ''Consider checking if fopen() returned NULL before using the file pointer'',
       severity = Information\<rparr>]"
proof -
  let ?l = "''FILE *f = fopen(p, m); // open''"
  let ?c = "''FILE *f = fopen(p, m); ''"
  let ?b = "''x = 1;''"
  have c: "?c = stripLineComment ?l" by code_simp
  have b: "?b = join_nl (take 4 (drop (0 + 1) [?l, ?b]))" by code_simp
  have i: "str_includes ?c ''fopen(''" by code_simp
  have k: "indexOf ?c ''fopen'' = 10" by code_simp
  have "\<not> test re_NULL ?b" by code_simp
  then have n1: "\<not> occurs ?b ''NULL'' (\<lambda>q rest. \<not> wordBefore q \<and> \<not> wordAfter rest)"
    unfolding test_re_NULL .
  have "\<not> test re_NULL_compared ?b" by code_simp
  then have n2: "\<not> occurs ?b ''!='' (\<lambda>q rest. wordBefore q \<and> prefix ''NULL'' (dropWhile isSpace rest))"
    and n3: "\<not> occurs ?b ''=='' (\<lambda>q rest. prefix ''NULL'' (dropWhile isSpace rest) \<and>
                                       \<not> wordAfter (drop 4 (dropWhile isSpace rest)))"
    unfolding test_re_NULL_compared by simp_all
  have "\<not> test re_if ?b" by code_simp
  then have n4: "\<not> occurs ?b ''if'' (\<lambda>q rest. \<not> wordBefore q \<and> prefix ''('' (dropWhile isSpace rest))"
    unfolding test_re_if .
  have "\<not> test re_perror ?b" by code_simp
  then have n5: "\<not> occurs ?b ''perror'' (\<lambda>q rest. True)" unfolding test_re_perror .
  from fopen_diagnostic_iff[OF c b, of "[]"] i k n1 n2 n3 n4 n5 show ?thesis by simp
qed

text \<open>
  C6 as stated fails: the next line compares nothing with \<open>NULL\<close>, has no \<open>if\<close> and no
  \<open>perror\<close>, and yet there is no diagnostic, because the word \<open>NULL\<close> alone counts as a
  check.
\<close>

theorem fopen_bare_NULL_suppresses:
  "str_includes (stripLineComment ''FILE *f = fopen(p, m);'') ''fopen('' \<and>
   \<not> str_includes ''char *q = NULL;'' ''!='' \<and>
   \<not> str_includes ''char *q = NULL;'' ''=='' \<and>
   \<not> str_includes ''char *q = NULL;'' ''if'' \<and>
   \<not> str_includes ''char *q = NULL;'' ''perror'' \<and>
   checkFopenWithoutNullCheck [''FILE *f = fopen(p, m);'', ''char *q = NULL;'']
     ''FILE *f = fopen(p, m);'' 0 [] = []"
  by code_simp

section \<open>The loop over the calls of a line\<close>

text \<open>
  A match of the call pattern is never empty, so the loop that collects the calls of a
  line resumes strictly further on each round: the guard in \<open>exec_all\<close> never cuts it
  short.
\<close>

lemma matches_shorter:
  "(p', s', caps') \<in> set (matches r p s caps) \<Longrightarrow> length s' \<le> length s"
  using matches_sound[of p' s' caps' r p s caps] by (auto dest: suffix_length_le)

lemma matches_consuming:
  "consuming r \<Longrightarrow> (p', s', caps') \<in> set (matches r p s caps) \<Longrightarrow> length s' < length s"
proof (induction r arbitrary: p s caps p' s' caps')
  case (Seq a b)
  from Seq.prems(2) obtain p1 s1 c1 where
    m1: "(p1, s1, c1) \<in> set (matches a p s caps)" and
    m2: "(p', s', caps') \<in> set (matches b p1 s1 c1)" by auto
  from matches_shorter[OF m1] matches_shorter[OF m2]
  have le: "length s1 \<le> length s" "length s' \<le> length s1" by auto
  from Seq.prems(1) consider "consuming a" | "consuming b" by auto
  then show ?case
  proof cases
    case 1
    from Seq.IH(1)[OF 1 m1] le show ?thesis by simp
  next
    case 2
    from Seq.IH(2)[OF 2 m2] le show ?thesis by simp
  qed
next
  case (Alt a b)
  then show ?case by auto
next
  case (Group a)
  then show ?case by auto
qed (auto split: list.splits if_splits)

lemma search_consuming:
  "consuming r \<Longrightarrow> search r p s = Some (p', s', caps') \<Longrightarrow> length s' < length s"
proof (induction s arbitrary: p)
  case Nil
  then have "(p', s', caps') \<in> set (matches r p [] [])" by (auto split: list.splits)
  from matches_consuming[OF Nil.prems(1) this] show ?case by simp
next
  case (Cons c t)
  show ?case
  proof (cases "matches r p (c # t) []")
    case Nil
    with Cons.prems have "search r (Some c) t = Some (p', s', caps')" by simp
    from Cons.IH[OF Cons.prems(1) this] show ?thesis by simp
  next
    case (Cons m ms)
    with Cons.prems have "(p', s', caps') \<in> set (matches r p (c # t) [])" by simp
    from matches_consuming[OF Cons.prems(1) this] show ?thesis .
  qed
qed

lemma functionPattern_consuming: "consuming functionPattern"
  by (simp add: functionPattern_def chr_def)

lemma exec_all_functionPattern:
  "exec_all functionPattern p s =
     (case search functionPattern p s of
        None \<Rightarrow> []
      | Some (p', s', caps) \<Rightarrow> caps # exec_all functionPattern p' s')"
proof (cases "search functionPattern p s")
  case None
  then show ?thesis by (subst exec_all.simps) simp
next
  case (Some m)
  obtain p' s' caps where m: "m = (p', s', caps)" by (cases m)
  from search_consuming[OF functionPattern_consuming Some[unfolded m]]
  have "length s' < length s" .
  with Some m show ?thesis by (subst exec_all.simps) simp
qed

section \<open>Header inference: when the second run inserts nothing\<close>

text \<open>
  The headers a run has found included are the first captures of the include pattern on
  the lines.  An include line written for a header of the table is recognised as such and
  calls nothing.
\<close>

lemma includedHeaders_fold:
  "set (foldl (\<lambda>included line.
              case match_groups re_include line of
                Some (h # _) \<Rightarrow> set_add included h
              | _ \<Rightarrow> included) acc ls) =
     set acc \<union> {t. \<exists>l\<in>set ls. \<exists>rest. match_groups re_include l = Some (t # rest)}"
proof (induction ls arbitrary: acc)
  case Nil
  then show ?case by simp
next
  case (Cons l ls)
  show ?case
  proof (cases "match_groups re_include l")
    case None
    then show ?thesis by (simp add: Cons.IH)
  next
    case (Some caps)
    then show ?thesis by (cases caps) (auto simp: Cons.IH set_add_set)
  qed
qed

lemma includedHeaders_set:
  "set (includedHeaders ls) =
     {t. \<exists>l\<in>set ls. \<exists>rest. match_groups re_include l = Some (t # rest)}"
  unfolding includedHeaders_def includedHeaders_fold by simp

lemma catalog_header_values:
  "(f, t) \<in> set FUNCTION_TO_HEADER \<Longrightarrow>
     t \<in> set [''stdio.h'', ''stdlib.h'', ''string.h'', ''math.h'', ''time.h'', ''ctype.h'']"
  by (auto simp: FUNCTION_TO_HEADER_def)

lemma catalog_include_lines:
  "\<forall>t\<in>set [''stdio.h'', ''stdlib.h'', ''string.h'', ''math.h'', ''time.h'', ''ctype.h''].
   \<forall>e\<in>set [LF, CRLF].
     calledNames (headerLine (Str t) @ lineEnd e) = [] \<and>
     match_groups re_include (headerLine (Str t) @ lineEnd e) = Some [t]"
  by code_simp

lemma headerOf_Str:
  assumes "headerOf fn = Some (Str t)"
  shows "calledNames (headerLine (Str t) @ lineEnd e) = [] \<and>
         match_groups re_include (headerLine (Str t) @ lineEnd e) = Some [t]"
proof -
  from assms have "map_of FUNCTION_TO_HEADER fn = Some t"
    by (auto simp: headerOf_def split: option.splits)
  from catalog_header_values[OF map_of_SomeD[OF this]]
  have t: "t \<in> set [''stdio.h'', ''stdlib.h'', ''string.h'', ''math.h'', ''time.h'', ''ctype.h'']" .
  have e: "e \<in> set [LF, CRLF]" by (cases e) simp_all
  from catalog_include_lines t e show ?thesis by blast
qed

lemma autoAddRequiredHeaders_None:
  "autoAddRequiredHeaders True documentText = None \<longleftrightarrow>
     requiredHeaders (split_nl documentText) = []"
  by (simp add: autoAddRequiredHeaders_def Let_def)

text \<open>
  So the second run inserts nothing whenever the first insertion went to a line of the
  document and every header it inserted came from the table itself.
\<close>

lemma second_run_inserts_nothing:
  assumes lines: "lines = split_nl documentText"
    and run: "autoAddRequiredHeaders True documentText = Some e"
    and inside: "insertionLine lines < length lines"
    and catalog: "\<forall>h\<in>set (requiredHeaders lines). \<exists>t. h = Str t"
  shows "autoAddRequiredHeaders True (applyEdit eol documentText e) = None"
proof -
  define hs where "hs = sort_key toText (requiredHeaders lines)"
  define e' where "e' = \<lparr>atLine = insertionLine lines, atCol = 0,
      insertText = concat (map (\<lambda>h. ''#include <'' @ toText h @ ''>'' @ [CHR 0x0A]) hs)\<rparr>"
  let ?new = "\<lambda>h. headerLine h @ lineEnd eol"
  from run have "requiredHeaders lines \<noteq> []"
    using autoAddRequiredHeaders_None[of documentText] lines by auto
  then obtain h0 where "h0 \<in> set (requiredHeaders lines)" by (cases "requiredHeaders lines") auto
  then have called: "\<exists>line\<in>set lines. \<exists>fn\<in>set (calledNames line). \<exists>h.
                   headerOf fn = Some h \<and> \<not> hasHeader (includedHeaders lines) h"
    unfolding requiredHeaders_set by blast
  note facts = header_edit_facts[OF lines called hs_def e'_def, of eol]
  from facts run have e: "e = e'" by simp
  from facts inside have res: "split_nl (applyEdit eol documentText e) =
      take (insertionLine lines) lines @ map ?new hs @ drop (insertionLine lines) lines"
    unfolding e by (simp add: headerLine_def)
  let ?lines' = "split_nl (applyEdit eol documentText e)"
  have set_hs: "set hs = set (requiredHeaders lines)" unfolding hs_def by simp
  have old: "set lines \<subseteq> set ?lines'"
  proof -
    have "set lines = set (take (insertionLine lines) lines) \<union> set (drop (insertionLine lines) lines)"
      by (metis append_take_drop_id set_append)
    then show ?thesis unfolding res by auto
  qed
  have new: "?new h \<in> set ?lines'" if "h \<in> set hs" for h
    unfolding res using that by simp
  have inc_mono: "set (includedHeaders lines) \<subseteq> set (includedHeaders ?lines')"
    unfolding includedHeaders_set using old by blast
  have inc_new: "hasHeader (includedHeaders ?lines') h" if h: "h \<in> set (requiredHeaders lines)" for h
  proof -
    from catalog h obtain t where t: "h = Str t" by auto
    from h obtain fn where "headerOf fn = Some h" unfolding requiredHeaders_set by auto
    from headerOf_Str[OF this[unfolded t], of eol]
    have "match_groups re_include (?new (Str t)) = Some [t]" by simp
    moreover from new[of h] h set_hs t have "?new (Str t) \<in> set ?lines'" by simp
    ultimately have "t \<in> set (includedHeaders ?lines')" unfolding includedHeaders_set by blast
    with t show ?thesis by simp
  qed
  have "hasHeader (includedHeaders ?lines') h"
    if l: "line \<in> set ?lines'" and fn: "fn \<in> set (calledNames line)" and h: "headerOf fn = Some h"
    for line fn h
  proof -
    from l consider "line \<in> set lines" | "line \<in> set (map ?new hs)"
      unfolding res by (auto dest: in_set_takeD in_set_dropD)
    then show ?thesis
    proof cases
      case 1
      show ?thesis
      proof (cases "hasHeader (includedHeaders lines) h")
        case True
        then obtain t where "h = Str t" "t \<in> set (includedHeaders lines)" by (cases h) auto
        with inc_mono show ?thesis by auto
      next
        case False
        with 1 fn h have "h \<in> set (requiredHeaders lines)" unfolding requiredHeaders_set by blast
        then show ?thesis by (rule inc_new)
      qed
    next
      case 2
      then obtain g where g: "g \<in> set hs" "line = ?new g" by auto
      from g(1) set_hs catalog obtain t where t: "g = Str t" by auto
      from g(1) set_hs obtain fn' where "headerOf fn' = Some g" unfolding requiredHeaders_set by auto
      from headerOf_Str[OF this[unfolded t], of eol] g(2) t have "calledNames line = []" by simp
      with fn show ?thesis by simp
    qed
  qed
  then have "set (requiredHeaders ?lines') = {}" unfolding requiredHeaders_set by blast
  then show ?thesis unfolding autoAddRequiredHeaders_None by simp
qed

end
